theory Spec2Isabelle
  imports Main
begin

section \<open>The comment fetcher of main.go\<close>

text \<open>
  The program asks for YouTube video URLs, extracts the video identifier of each
  (\<^verbatim>\<open>getVideoId\<close>) and, in \<^verbatim>\<open>getComments\<close>, starts one goroutine per URL.
  A goroutine waits for a permit of a shared rate limiter once, then runs the closure
  \<^verbatim>\<open>operation\<close> under \<^verbatim>\<open>backoff.Retry\<close>; the closure opens the output file
  \<^verbatim>\<open>comments_<id>.txt\<close>, calls the comment listing of the remote API and prints one
  line per comment through a buffered writer.

  Everything outside the program (the URL parser, the remote API, the failures of the file
  system, the schedule of backoff delays) is a field of the record \<open>env\<close>; what the program
  changes (files, console, clock, the order of permits and remote calls) is the record
  \<open>world\<close>, passed through every function.
\<close>

subsection \<open>Errors, comments, events\<close>

text \<open>
  A Go \<^verbatim>\<open>error\<close> is modelled by its message, tagged with the place it comes from:
  creating the API client, extracting the identifier, opening or writing the file, the
  remote call, the context of the rate limiter. The source builds every error with
  \<^verbatim>\<open>fmt.Errorf\<close>; none is wrapped as a permanent error of the backoff package.
\<close>

datatype err_kind = ClientError | InputError | IOError | RemoteError | CancellationError

datatype error = Error (kind: err_kind) (msg: string)

text \<open>The two fields of a comment snippet that \<^verbatim>\<open>getComments\<close> reads.\<close>

record CommentRecord =
  AuthorDisplayName :: string
  TextDisplay :: string

text \<open>
  The trace records, in order, each permit granted by the rate limiter and each remote call
  issued (\<^verbatim>\<open>call.Do()\<close>) with its API key, video identifier and result bound.
\<close>

datatype event = PermitAcquired | RemoteCall string string int

fun is_call :: "event \<Rightarrow> bool" where
  "is_call (RemoteCall _ _ _) = True"
| "is_call PermitAcquired = False"

record world =
  files :: "string \<rightharpoonup> string"
  trace :: "event list"
  console :: "string list"
  now :: nat

subsection \<open>The collaborators\<close>

text \<open>
  \<^verbatim>\<open>url.Values\<close> is a \<^verbatim>\<open>map[string][]string\<close>; \<^verbatim>\<open>Get\<close> returns the first value
  of a key, or the empty string when the key has no value. A parsed URL is represented by
  the values of its query, which is all that \<^verbatim>\<open>getVideoId\<close> reads from it.
\<close>

type_synonym Values = "string \<rightharpoonup> string list"

datatype URL = URL (Query: Values)

definition Values_Get :: "Values \<Rightarrow> string \<Rightarrow> string" where
  "Values_Get v key = (case v key of None \<Rightarrow> [] | Some [] \<Rightarrow> [] | Some (x # _) \<Rightarrow> x)"

text \<open>
  The behaviour of the libraries and of the outside world, taken as parameters:
  \<^item> \<open>url_Parse\<close>: \<^verbatim>\<open>url.Parse\<close>, an error message or the parsed URL;
  \<^item> \<open>youtube_New\<close>: the error of \<^verbatim>\<open>youtube.New\<close>, if any;
  \<^item> \<open>OpenFile_err\<close>, \<open>Write_err\<close>: the error of opening a file and of writing bytes
    to it, if any, in the current world;
  \<^item> \<open>CommentThreads_List_Do\<close>: the answer of the remote API to a call made in the
    current world (whose trace holds every earlier call): an error message or the comments;
  \<^item> \<open>NewExponentialBackOff\<close>: the delays (in milliseconds) that the backoff policy
    created for a task hands out before it says stop. The policy of the library stops once
    its maximal elapsed time has passed, so the schedule is finite.
\<close>

record env =
  url_Parse :: "string \<Rightarrow> string + URL"
  youtube_New :: "string \<Rightarrow> string option"
  OpenFile_err :: "world \<Rightarrow> string \<Rightarrow> string option"
  Write_err :: "world \<Rightarrow> string \<Rightarrow> string \<Rightarrow> string option"
  CommentThreads_List_Do :: "world \<Rightarrow> string \<Rightarrow> string \<Rightarrow> int \<Rightarrow> string + CommentRecord list"
  NewExponentialBackOff :: "world \<Rightarrow> nat list"

subsection \<open>Constants of main.go\<close>

definition defaultCommentsFileName :: string where
  "defaultCommentsFileName = ''comments''"

definition invalidURLMsg :: string where
  "invalidURLMsg = ''Invalid YouTube URL''"

definition errorAPICallMsg :: string where
  "errorAPICallMsg = ''Error during API search call: %v''"

definition errorWritingFileMsg :: string where
  "errorWritingFileMsg = ''Error writing to file: %v''"

subsection \<open>getVideoId\<close>

text \<open>
  \<^verbatim>\<open>
  func getVideoId(videoUrl string) (string, error) {
      u, err := url.Parse(videoUrl)
      if err != nil { return "", fmt.Errorf("failed to parse URL: %w", err) }
      return u.Query().Get("v"), nil
  }
  \<close>
\<close>

definition getVideoId :: "env \<Rightarrow> string \<Rightarrow> string + string" where
  "getVideoId e videoUrl =
     (case url_Parse e videoUrl of
        Inl err \<Rightarrow> Inl (''failed to parse URL: '' @ err)
      | Inr u \<Rightarrow> Inr (Values_Get (Query u) ''v''))"

subsection \<open>The output file and its buffered writer\<close>

text \<open>
  \<^verbatim>\<open>os.OpenFile(name, O_APPEND|O_CREATE|O_WRONLY, 0644)\<close>: an error leaves the file system
  as it is; otherwise a missing file is created empty and an existing one keeps its
  content. The handle is the name. A write through the handle appends (\<^verbatim>\<open>O_APPEND\<close>);
  it is taken to write all of its bytes or none.
\<close>

definition OpenFile :: "env \<Rightarrow> string \<Rightarrow> world \<Rightarrow> (string + string) \<times> world" where
  "OpenFile e name w =
     (case OpenFile_err e w name of
        Some err \<Rightarrow> (Inl err, w)
      | None \<Rightarrow>
          (Inr name,
           w\<lparr>files := (files w)(name \<mapsto> (case files w name of None \<Rightarrow> [] | Some c \<Rightarrow> c))\<rparr>))"

definition File_Write :: "env \<Rightarrow> string \<Rightarrow> string \<Rightarrow> world \<Rightarrow> string option \<times> world" where
  "File_Write e name p w =
     (case Write_err e w name p of
        Some err \<Rightarrow> (Some err, w)
      | None \<Rightarrow>
          (None,
           w\<lparr>files := (files w)(name \<mapsto> (case files w name of None \<Rightarrow> p | Some c \<Rightarrow> c @ p))\<rparr>))"

text \<open>
  \<^verbatim>\<open>bufio.NewWriter(file)\<close>: a buffer of 4096 bytes in front of the file, with a sticky
  error. \<^verbatim>\<open>Flush\<close> writes the buffer out; \<^verbatim>\<open>Write\<close> fills the buffer and flushes
  when the bytes do not fit, writing straight to the file when the buffer is empty.
\<close>

record Writer =
  wr :: string
  buf :: string
  werr :: "string option"

definition defaultBufSize :: nat where
  "defaultBufSize = 4096"

definition NewWriter :: "string \<Rightarrow> Writer" where
  "NewWriter file = \<lparr>wr = file, buf = [], werr = None\<rparr>"

definition Available :: "Writer \<Rightarrow> nat" where
  "Available b = defaultBufSize - length (buf b)"

definition Flush :: "env \<Rightarrow> Writer \<Rightarrow> world \<Rightarrow> Writer \<times> world" where
  "Flush e b w =
     (if werr b \<noteq> None then (b, w)
      else if buf b = [] then (b, w)
      else (case File_Write e (wr b) (buf b) w of
              (Some err, w') \<Rightarrow> (b\<lparr>werr := Some err\<rparr>, w')
            | (None, w') \<Rightarrow> (b\<lparr>buf := []\<rparr>, w')))"

function Write_loop :: "env \<Rightarrow> Writer \<Rightarrow> string \<Rightarrow> world \<Rightarrow> Writer \<times> string \<times> world" where
  "Write_loop e b p w =
     (if length p > Available b \<and> werr b = None then
        (if buf b = [] then
           (case File_Write e (wr b) p w of
              (Some err, w') \<Rightarrow> Write_loop e (b\<lparr>werr := Some err\<rparr>) p w'
            | (None, w') \<Rightarrow> Write_loop e b [] w')
         else
           (case Flush e (b\<lparr>buf := buf b @ take (Available b) p\<rparr>) w of
              (b', w') \<Rightarrow> Write_loop e b' (drop (Available b) p) w'))
      else (b, p, w))"
  by pat_completeness auto
termination
proof (relation "measures [\<lambda>(e, b, p, w). if werr b = None then 1 else 0,
                           \<lambda>(e, b, p, w). length p,
                           \<lambda>(e, b, p, w). length (buf b)]", goal_cases)
  case 1
  then show ?case by simp
next
  case 2
  then show ?case by auto
next
  case 3
  then show ?case by auto
next
  case (4 e b p w b' w')
  then have "Flush e (b\<lparr>buf := buf b @ take (Available b) p\<rparr>) w = (b', w')"
    by simp
  with 4 have "werr b' \<noteq> None \<or> buf b' = []"
    by (auto simp: Flush_def split: if_splits prod.splits option.splits)
  with 4 show ?case by auto
qed

declare Write_loop.simps [simp del]

definition Write :: "env \<Rightarrow> Writer \<Rightarrow> string \<Rightarrow> world \<Rightarrow> Writer \<times> string option \<times> world" where
  "Write e b p w =
     (case Write_loop e b p w of
        (b', p', w') \<Rightarrow>
          (if werr b' \<noteq> None then (b', werr b', w')
           else (b'\<lparr>buf := buf b' @ p'\<rparr>, None, w')))"


text \<open>
  \<^verbatim>\<open>fmt.Fprintf(writer, "Comment from %s: %s\n", author, text)\<close> formats the line and hands
  it to the writer in one \<^verbatim>\<open>Write\<close>.
\<close>

definition comment_line :: "CommentRecord \<Rightarrow> string" where
  "comment_line c =
     ''Comment from '' @ AuthorDisplayName c @ '': '' @ TextDisplay c @ [CHR 0x0A]"

definition Fprintf :: "env \<Rightarrow> Writer \<Rightarrow> CommentRecord \<Rightarrow> world \<Rightarrow> Writer \<times> string option \<times> world" where
  "Fprintf e b c w = Write e b (comment_line c) w"

subsection \<open>The closure operation of getComments\<close>

text \<open>
  The loop over \<^verbatim>\<open>response.Items\<close> (lines 86 to 92): the first failing
  \<^verbatim>\<open>Fprintf\<close> ends the closure with an error.
\<close>

fun write_items :: "env \<Rightarrow> Writer \<Rightarrow> CommentRecord list \<Rightarrow> world \<Rightarrow> Writer \<times> error option \<times> world" where
  "write_items e b [] w = (b, None, w)"
| "write_items e b (c # cs) w =
     (case Fprintf e b c w of
        (b', Some err, w') \<Rightarrow> (b', Some (Error IOError (errorWritingFileMsg @ '': '' @ err)), w')
      | (b', None, w') \<Rightarrow> write_items e b' cs w')"

text \<open>
  The deferred calls registered at lines 75 and 78 run on every return after them:
  \<^verbatim>\<open>writer.Flush()\<close>, whose error is dropped, then \<^verbatim>\<open>file.Close()\<close>.
\<close>

definition deferred :: "env \<Rightarrow> Writer \<Rightarrow> error option \<Rightarrow> world \<Rightarrow> error option \<times> world" where
  "deferred e b r w = (r, snd (Flush e b w))"

text \<open>
  Lines 55 to 95. The steps, in the order of the source: create the API client, extract
  the identifier, open the file \<^verbatim>\<open>comments_<id>.txt\<close>, wrap it in a writer, call the
  remote API, print the comments. The remote call is recorded in the trace.
\<close>

definition filename_of :: "string \<Rightarrow> string" where
  "filename_of videoId = defaultCommentsFileName @ ''_'' @ videoId @ ''.txt''"

definition operation :: "env \<Rightarrow> string \<Rightarrow> int \<Rightarrow> string \<Rightarrow> world \<Rightarrow> error option \<times> world" where
  "operation e videoUrl maxComments developerKey w =
     (case youtube_New e developerKey of
        Some err \<Rightarrow>
          (Some (Error ClientError (''error creating new YouTube client: '' @ err)), w)
      | None \<Rightarrow>
          (case getVideoId e videoUrl of
             Inl err \<Rightarrow> (Some (Error InputError (invalidURLMsg @ '': '' @ err)), w)
           | Inr videoId \<Rightarrow>
               (case OpenFile e (filename_of videoId) w of
                  (Inl err, w1) \<Rightarrow>
                    (Some (Error IOError (errorWritingFileMsg @ '': '' @ err)), w1)
                | (Inr file, w1) \<Rightarrow>
                    (let writer = NewWriter file;
                         w2 = w1\<lparr>trace := trace w1 @ [RemoteCall developerKey videoId maxComments]\<rparr>
                     in case CommentThreads_List_Do e w1 developerKey videoId maxComments of
                          Inl err \<Rightarrow>
                            deferred e writer
                              (Some (Error RemoteError (errorAPICallMsg @ '': '' @ err))) w2
                        | Inr items \<Rightarrow>
                            (case write_items e writer items w2 of
                               (writer', r, w3) \<Rightarrow> deferred e writer' r w3)))))"

subsection \<open>The retry wrapper\<close>

text \<open>
  Modelled from the spec: \<^verbatim>\<open>backoff.Retry\<close> of the package
  \<^verbatim>\<open>github.com/cenkalti/backoff/v4\<close>, which is not among the sources. The spec (4.2):
  it invokes the operation; on failure it retries with backoff until either the operation
  succeeds or the budget is reached, at which point the last error is returned. The budget
  is the list of delays of the backoff policy: before each retry the wrapper sleeps for the
  next delay, and it gives up when none is left.
\<close>

fun Retry :: "(world \<Rightarrow> error option \<times> world) \<Rightarrow> nat list \<Rightarrow> world \<Rightarrow> error option \<times> world" where
  "Retry oper [] w = oper w"
| "Retry oper (d # ds) w =
     (case oper w of
        (None, w') \<Rightarrow> (None, w')
      | (Some err, w') \<Rightarrow> Retry oper ds (w'\<lparr>now := now w' + d\<rparr>))"

subsection \<open>The rate limiter\<close>

text \<open>
  Modelled from the spec: the limiter of \<^verbatim>\<open>golang.org/x/time/rate\<close>, which is not among
  the sources. The spec (3, 4.1): a counter and a clock (tokens available, an integer, and
  last refill time),
  refilled by one token per interval up to the capacity; \<open>acquire\<close> blocks the caller until a
  token is available or the cancellation signal fires, and fails only with the cancellation.
  A context is the time at which its signal fires, if it ever does;
  \<^verbatim>\<open>context.Background()\<close> never fires. Times are in milliseconds. The model is meant
  for a capacity and an interval of at least one, as \<^verbatim>\<open>getComments\<close> constructs it.
\<close>

record Limiter =
  capacity :: nat
  interval :: nat
  tokens :: int
  last_refill :: nat

type_synonym Context = "nat option"

definition Background :: Context where
  "Background = None"

definition Second :: nat where
  "Second = 1000"

definition Every :: "nat \<Rightarrow> nat" where
  "Every d = d"

text \<open>
  Modelled from the spec: a limiter is constructed with its interval and its capacity, and
  starts full.
\<close>

definition NewLimiter :: "nat \<Rightarrow> nat \<Rightarrow> Limiter" where
  "NewLimiter r b = \<lparr>capacity = b, interval = r, tokens = int b, last_refill = 0\<rparr>"

text \<open>
  Modelled from the spec: the refill at time \<open>t\<close> adds one token per whole interval
  elapsed since the last refill, up to the capacity.
\<close>

definition refill :: "Limiter \<Rightarrow> nat \<Rightarrow> Limiter" where
  "refill l t =
     (let n = (t - last_refill l) div interval l in
      if int (capacity l) \<le> tokens l + int n
      then l\<lparr>tokens := int (capacity l), last_refill := max t (last_refill l)\<rparr>
      else l\<lparr>tokens := tokens l + int n, last_refill := last_refill l + n * interval l\<rparr>)"

definition fired :: "Context \<Rightarrow> nat \<Rightarrow> bool" where
  "fired ctx t = (case ctx of None \<Rightarrow> False | Some c \<Rightarrow> c \<le> t)"

definition Canceled :: error where
  "Canceled = Error CancellationError ''context canceled''"

text \<open>
  Modelled from the spec: \<open>acquire\<close>, called at time \<open>t\<close>, returns the outcome, the
  limiter and the time at which the caller goes on. A signal that has fired cancels the
  call; otherwise a token at hand is taken at once; otherwise the caller is blocked until
  the next token arrives, unless the signal fires first.
\<close>

definition Wait :: "Limiter \<Rightarrow> Context \<Rightarrow> nat \<Rightarrow> (error + unit) \<times> Limiter \<times> nat" where
  "Wait l ctx t =
     (let l1 = refill l t in
      if fired ctx t then (Inl Canceled, l1, t)
      else if 0 < tokens l1 then (Inr (), l1\<lparr>tokens := tokens l1 - 1\<rparr>, t)
      else
        (let t' = last_refill l1 + interval l1;
             l2 = refill l1 t'
         in case ctx of
              None \<Rightarrow> (Inr (), l2\<lparr>tokens := tokens l2 - 1\<rparr>, t')
            | Some c \<Rightarrow>
                if c \<le> t' then (Inl Canceled, l1, c)
                else (Inr (), l2\<lparr>tokens := tokens l2 - 1\<rparr>, t')))"

text \<open>
  Modelled from the spec: concurrent requests for a permit reach the limiter one after
  another, in some order; a sequence of requests is a list of calls of \<open>acquire\<close>, each with
  its context and the time at which it is made, in any order of times.
\<close>

fun Waits :: "Limiter \<Rightarrow> (Context \<times> nat) list \<Rightarrow> Limiter" where
  "Waits l [] = l"
| "Waits l ((ctx, t) # rs) = Waits (fst (snd (Wait l ctx t))) rs"

text \<open>
  Modelled from the spec: the states of a limiter that the spec allows, with a capacity and
  an interval of at least one and a token count from zero to the capacity.
\<close>

definition limiter_ok :: "Limiter \<Rightarrow> bool" where
  "limiter_ok l = (1 \<le> capacity l \<and> 1 \<le> interval l \<and> 0 \<le> tokens l \<and> tokens l \<le> int (capacity l))"

subsection \<open>getComments\<close>

text \<open>
  The body of one goroutine (lines 47 to 101): wait for a permit once; on an error of the
  limiter print it and return; otherwise run \<open>operation\<close> under \<open>Retry\<close> with a fresh
  backoff policy and print the error that \<open>Retry\<close> returns, if any. A goroutine returns
  nothing; the \<open>outcome\<close> records through which of its three exits it reached
  \<^verbatim>\<open>wg.Done()\<close>. This is the body run from its first line to its last while no other
  goroutine runs; the goroutines of a run, which interleave, follow below.
\<close>

datatype outcome = Succeeded | Exhausted error | Cancelled error

definition task ::
  "env \<Rightarrow> Context \<Rightarrow> int \<Rightarrow> string \<Rightarrow> string \<Rightarrow> Limiter \<times> world \<Rightarrow> outcome \<times> Limiter \<times> world" where
  "task e ctx maxComments developerKey videoUrl lw =
     (case lw of (limiter, w) \<Rightarrow>
        (case Wait limiter ctx (now w) of
           (Inl err, limiter', t) \<Rightarrow>
             (Cancelled err, limiter',
              w\<lparr>now := t, console := console w @ [''Rate limit error: '' @ msg err]\<rparr>)
         | (Inr _, limiter', t) \<Rightarrow>
             (let w1 = w\<lparr>now := t, trace := trace w @ [PermitAcquired]\<rparr> in
              case Retry (operation e videoUrl maxComments developerKey)
                     (NewExponentialBackOff e w1) w1 of
                (None, w2) \<Rightarrow> (Succeeded, limiter', w2)
              | (Some err, w2) \<Rightarrow>
                  (Exhausted err, limiter',
                   w2\<lparr>console := console w2 @ [''Failed to retrieve comments: '' @ msg err]\<rparr>))))"

text \<open>
  \<^verbatim>\<open>getComments\<close> creates the limiter (one permit per second, burst 1), adds one to the
  \<^verbatim>\<open>WaitGroup\<close> and starts one goroutine per URL, and then blocks in \<^verbatim>\<open>wg.Wait()\<close>
  until the counter of the group is zero. The goroutines share the limiter, the file system
  and the console, and they run concurrently.
\<close>

definition limiter0 :: Limiter where
  "limiter0 = NewLimiter (Every Second) 1"

text \<open>
  A goroutine is at one of three places of its body: before \<^verbatim>\<open>limiter.Wait\<close>
  (\<open>Pending\<close>), inside \<^verbatim>\<open>backoff.Retry\<close> with the delays that are left of its backoff
  policy (\<open>InFlight\<close>), or past its deferred \<^verbatim>\<open>wg.Done()\<close> (\<open>Finished\<close>, with the exit it
  took). Each goroutine has its own clock: the time it spends blocked in the limiter or
  asleep between two attempts passes for it alone.
\<close>

datatype phase = Pending | InFlight "nat list" | Finished outcome

record goroutine =
  gurl :: string
  gclock :: nat
  gphase :: phase

definition finished :: "goroutine \<Rightarrow> bool" where
  "finished g = (case gphase g of Finished r \<Rightarrow> True | _ \<Rightarrow> False)"

text \<open>
  One step of a goroutine, on the shared limiter and world. A pending goroutine calls
  \<^verbatim>\<open>limiter.Wait\<close> (line 50): on an error it prints it and ends, otherwise it takes a
  fresh backoff policy. A goroutine in flight makes one attempt, a call of \<open>operation\<close>
  (lines 55 to 95): on success it ends; on an error it sleeps for the next delay of its
  policy, or, when none is left, prints the error (line 99) and ends. The steps of different
  goroutines interleave; one step is not interrupted.
\<close>

definition gstep ::
  "env \<Rightarrow> Context \<Rightarrow> int \<Rightarrow> string \<Rightarrow> goroutine \<Rightarrow> Limiter \<times> world \<Rightarrow> goroutine \<times> Limiter \<times> world" where
  "gstep e ctx maxComments developerKey g lw =
     (case lw of (limiter, w) \<Rightarrow>
        (case gphase g of
           Pending \<Rightarrow>
             (case Wait limiter ctx (gclock g) of
                (Inl err, limiter', t) \<Rightarrow>
                  (g\<lparr>gclock := t, gphase := Finished (Cancelled err)\<rparr>, limiter',
                   w\<lparr>now := t, console := console w @ [''Rate limit error: '' @ msg err]\<rparr>)
              | (Inr _, limiter', t) \<Rightarrow>
                  (let w1 = w\<lparr>now := t, trace := trace w @ [PermitAcquired]\<rparr> in
                   (g\<lparr>gclock := t, gphase := InFlight (NewExponentialBackOff e w1)\<rparr>,
                    limiter', w1)))
         | InFlight ds \<Rightarrow>
             (case operation e (gurl g) maxComments developerKey (w\<lparr>now := gclock g\<rparr>) of
                (None, w') \<Rightarrow> (g\<lparr>gphase := Finished Succeeded\<rparr>, limiter, w')
              | (Some err, w') \<Rightarrow>
                  (case ds of
                     [] \<Rightarrow>
                       (g\<lparr>gphase := Finished (Exhausted err)\<rparr>, limiter,
                        w'\<lparr>console := console w' @ [''Failed to retrieve comments: '' @ msg err]\<rparr>)
                   | d # ds' \<Rightarrow>
                       (g\<lparr>gclock := now w' + d, gphase := InFlight ds'\<rparr>, limiter,
                        w'\<lparr>now := now w' + d\<rparr>)))
         | Finished r \<Rightarrow> (g, limiter, w)))"

text \<open>
  The state of a run: the goroutines in the order of the URLs, the counter of the
  \<^verbatim>\<open>WaitGroup\<close>, the limiter and the world. The scheduler is free: at every point it picks
  any goroutine that has not finished. A schedule is a list of numbers, the \<open>k\<close>-th of which
  selects among the goroutines that can run at the \<open>k\<close>-th step; when the list is used up
  the first of them runs. A goroutine that finishes decrements the counter
  (\<^verbatim>\<open>defer wg.Done()\<close>, line 47).
\<close>

record sched_state =
  st_gs :: "goroutine list"
  st_wg :: nat
  st_limiter :: Limiter
  st_world :: world

definition runnable :: "goroutine list \<Rightarrow> nat list" where
  "runnable gs = filter (\<lambda>i. \<not> finished (gs ! i)) [0..<length gs]"

definition pick :: "nat list \<Rightarrow> nat list \<Rightarrow> nat" where
  "pick sched cands = cands ! ((case sched of [] \<Rightarrow> 0 | c # _ \<Rightarrow> c) mod length cands)"

definition step_at :: "env \<Rightarrow> Context \<Rightarrow> int \<Rightarrow> string \<Rightarrow> nat \<Rightarrow> sched_state \<Rightarrow> sched_state" where
  "step_at e ctx maxComments developerKey j s =
     (case gstep e ctx maxComments developerKey (st_gs s ! j) (st_limiter s, st_world s) of
        (g', limiter', w') \<Rightarrow>
          s\<lparr>st_gs := (st_gs s)[j := g'],
            st_wg := (if finished g' then st_wg s - 1 else st_wg s),
            st_limiter := limiter',
            st_world := w'\<rparr>)"

definition weight :: "goroutine \<Rightarrow> nat" where
  "weight g = (case gphase g of InFlight ds \<Rightarrow> Suc (length ds) | _ \<Rightarrow> 0)"

definition pending :: "goroutine \<Rightarrow> nat" where
  "pending g = (case gphase g of Pending \<Rightarrow> 1 | _ \<Rightarrow> 0)"

text \<open>
  The goroutines run, one step at a time as the schedule says, until none can run. Every
  step either takes a goroutine out of \<open>Pending\<close> or uses up an attempt of its policy.
\<close>

function run :: "env \<Rightarrow> Context \<Rightarrow> int \<Rightarrow> string \<Rightarrow> nat list \<Rightarrow> sched_state \<Rightarrow> sched_state" where
  "run e ctx maxComments developerKey sched s =
     (case runnable (st_gs s) of
        [] \<Rightarrow> s
      | c # cs \<Rightarrow>
          run e ctx maxComments developerKey (tl sched)
            (step_at e ctx maxComments developerKey (pick sched (c # cs)) s))"
  by pat_completeness auto
termination
proof (relation "measures [\<lambda>(e, ctx, n, key, sched, s). sum_list (map pending (st_gs s)),
                           \<lambda>(e, ctx, n, key, sched, s). sum_list (map weight (st_gs s))]",
       goal_cases)
  case 1
  then show ?case by simp
next
  case (2 e ctx n key sched s c cs)
  let ?gs = "st_gs s"
  let ?j = "pick sched (c # cs)"
  have "?j \<in> set (c # cs)"
    unfolding pick_def by (rule nth_mem) simp
  with 2 have "?j \<in> set (runnable ?gs)"
    by simp
  then have j: "?j < length ?gs" and nf: "\<not> finished (?gs ! ?j)"
    by (simp_all add: runnable_def)
  obtain g' l' w' where st: "gstep e ctx n key (?gs ! ?j) (st_limiter s, st_world s) = (g', l', w')"
    by (cases "gstep e ctx n key (?gs ! ?j) (st_limiter s, st_world s)")
  have upd: "sum_list (map f (xs[k := y])) + f (xs ! k) = sum_list (map f xs) + f y"
    if "k < length xs" for f :: "goroutine \<Rightarrow> nat" and xs k y
    using that
  proof (induction xs arbitrary: k)
    case Nil
    then show ?case by simp
  next
    case (Cons x xs)
    then show ?case by (cases k) (simp_all add: add.assoc add.left_commute)
  qed
  have dec: "pending g' < pending (?gs ! ?j) \<or>
             (pending g' = pending (?gs ! ?j) \<and> weight g' < weight (?gs ! ?j))"
    using st nf
    by (auto simp: gstep_def finished_def pending_def weight_def Let_def
             split: phase.splits prod.splits sum.splits option.splits list.splits)
  from upd [OF j, of pending g'] upd [OF j, of weight g'] dec st
  show ?case
    by (auto simp: step_at_def)
qed

declare run.simps [simp del]

definition outcomes :: "goroutine list \<Rightarrow> outcome list" where
  "outcomes gs = concat (map (\<lambda>g. case gphase g of Finished r \<Rightarrow> [r] | _ \<Rightarrow> []) gs)"

definition spawn :: "world \<Rightarrow> string \<Rightarrow> goroutine" where
  "spawn w videoUrl = \<lparr>gurl = videoUrl, gclock = now w, gphase = Pending\<rparr>"

definition start :: "world \<Rightarrow> string list \<Rightarrow> sched_state" where
  "start w videoUrls =
     \<lparr>st_gs = map (spawn w) videoUrls, st_wg = length videoUrls,
      st_limiter = limiter0, st_world = w\<rparr>"

text \<open>
  \<^verbatim>\<open>getComments\<close> under a schedule. \<^verbatim>\<open>wg.Wait()\<close> returns when the counter is zero;
  a run that ends with a counter above zero leaves the caller blocked for ever, which is the
  value \<open>None\<close>. \<^verbatim>\<open>getComments\<close> returns nothing: the result here is what an observer
  sees, the exit of every goroutine in the order of the URLs and the world.
\<close>

definition getComments ::
  "env \<Rightarrow> Context \<Rightarrow> nat list \<Rightarrow> string list \<Rightarrow> int \<Rightarrow> string \<Rightarrow> world \<Rightarrow> (outcome list \<times> world) option" where
  "getComments e ctx sched videoUrls maxComments developerKey w =
     (let s = run e ctx maxComments developerKey sched (start w videoUrls)
      in if st_wg s = 0 then Some (outcomes (st_gs s), st_world s) else None)"

subsection \<open>Auxiliary notions\<close>

text \<open>The content of a file, empty when the file does not exist.\<close>

definition content :: "world \<Rightarrow> string \<Rightarrow> string" where
  "content w f = (case files w f of None \<Rightarrow> [] | Some c \<Rightarrow> c)"

text \<open>
  A trace is covered when each remote call in it consumes a permit acquired before it and
  not consumed by an earlier call; the number counts the permits not yet consumed.
\<close>

fun covered :: "nat \<Rightarrow> event list \<Rightarrow> bool" where
  "covered n [] = True"
| "covered n (PermitAcquired # es) = covered (Suc n) es"
| "covered 0 (RemoteCall k v m # es) = False"
| "covered (Suc n) (RemoteCall k v m # es) = covered n es"

text \<open>The number of remote calls issued so far.\<close>

definition calls :: "world \<Rightarrow> nat" where
  "calls w = length (filter is_call (trace w))"

subsection \<open>A concrete environment\<close>

text \<open>
  A stub of the collaborators, used to run the program on concrete inputs. The parser
  knows four locators, on which it answers as \<^verbatim>\<open>net/url\<close> does: three watch URLs with a
  \<^verbatim>\<open>v\<close> parameter, and one without; it rejects \<^verbatim>\<open>://bad\<close> (missing protocol scheme).
  The remote API returns two comments for the video \<^verbatim>\<open>abc123\<close>, fails once and then
  returns one comment for \<^verbatim>\<open>flaky01\<close>, and fails for every other identifier. Files can
  always be opened and written, and the backoff policy hands out two delays.
\<close>

definition demo_ids :: "(string \<times> string) list" where
  "demo_ids =
     [(''https://www.youtube.com/watch?v=abc123'', ''abc123''),
      (''https://www.youtube.com/watch?v=flaky01'', ''flaky01''),
      (''https://www.youtube.com/watch?v=gone404'', ''gone404'')]"

definition demo_Parse :: "string \<Rightarrow> string + URL" where
  "demo_Parse s =
     (case map_of demo_ids s of
        Some i \<Rightarrow> Inr (URL [''v'' \<mapsto> [i]])
      | None \<Rightarrow>
          (if s = ''://bad''
           then Inl (''parse '' @ [CHR 0x22] @ ''://bad'' @ [CHR 0x22] @ '': missing protocol scheme'')
           else Inr (URL Map.empty)))"

definition alice_bob :: "CommentRecord list" where
  "alice_bob =
     [\<lparr>AuthorDisplayName = ''Alice'', TextDisplay = ''hi''\<rparr>,
      \<lparr>AuthorDisplayName = ''Bob'', TextDisplay = ''nice video''\<rparr>]"

definition demo_Do :: "world \<Rightarrow> string \<Rightarrow> string \<Rightarrow> int \<Rightarrow> string + CommentRecord list" where
  "demo_Do w key vid n =
     (if vid = ''abc123'' then Inr alice_bob
      else if vid = ''flaky01'' \<and> 1 \<le> calls w
      then Inr [\<lparr>AuthorDisplayName = ''Carol'', TextDisplay = ''ok''\<rparr>]
      else Inl ''googleapi: Error 503: backend error'')"

definition demo_env :: env where
  "demo_env =
     \<lparr>url_Parse = demo_Parse,
      youtube_New = (\<lambda>key. None),
      OpenFile_err = (\<lambda>w name. None),
      Write_err = (\<lambda>w name p. None),
      CommentThreads_List_Do = demo_Do,
      NewExponentialBackOff = (\<lambda>w. [500, 750])\<rparr>"

definition w0 :: world where
  "w0 = \<lparr>files = Map.empty, trace = [], console = [], now = 0\<rparr>"

text \<open>A world in which the output file of the video \<^verbatim>\<open>abc123\<close> already has a line.\<close>

definition w_old :: world where
  "w_old = w0\<lparr>files := [''comments_abc123.txt'' \<mapsto> ''Comment from Zed: first'' @ [CHR 0x0A]]\<rparr>"

text \<open>
  The same environment on a full disk: every write to a file fails. And the same again with
  a video whose one comment is longer than the buffer of the writer.
\<close>

definition full_env :: env where
  "full_env = demo_env\<lparr>Write_err := (\<lambda>w name p. Some ''no space left on device'')\<rparr>"

definition long_comment :: "CommentRecord list" where
  "long_comment = [\<lparr>AuthorDisplayName = ''Dave'', TextDisplay = replicate 5000 (CHR ''x'')\<rparr>]"

definition full_env_long :: env where
  "full_env_long = full_env\<lparr>CommentThreads_List_Do := (\<lambda>w key vid n. Inr long_comment)\<rparr>"

section \<open>Properties\<close>

subsection \<open>The buffered writer\<close>

lemma Write_loop_stop:
  "length p \<le> Available b \<or> werr b \<noteq> None \<Longrightarrow> Write_loop e b p w = (b, p, w)"
  by (subst Write_loop.simps) auto

lemma Write_loop_direct:
  "length p > Available b \<Longrightarrow> werr b = None \<Longrightarrow> buf b = [] \<Longrightarrow>
   Write_loop e b p w =
     (case File_Write e (wr b) p w of
        (Some err, w') \<Rightarrow> Write_loop e (b\<lparr>werr := Some err\<rparr>) p w'
      | (None, w') \<Rightarrow> Write_loop e b [] w')"
  by (subst Write_loop.simps) simp

lemma Write_loop_fill:
  "length p > Available b \<Longrightarrow> werr b = None \<Longrightarrow> buf b \<noteq> [] \<Longrightarrow>
   Write_loop e b p w =
     (case Flush e (b\<lparr>buf := buf b @ take (Available b) p\<rparr>) w of
        (b', w') \<Rightarrow> Write_loop e b' (drop (Available b) p) w')"
  by (subst Write_loop.simps) simp

text \<open>An invariant of the loop of Write holds of its result.\<close>

lemma Write_loop_rule:
  "I b p w \<Longrightarrow>
   (\<And>b p w w'. I b p w \<Longrightarrow> length p > Available b \<Longrightarrow> werr b = None \<Longrightarrow> buf b = [] \<Longrightarrow>
       File_Write e (wr b) p w = (None, w') \<Longrightarrow> I b [] w') \<Longrightarrow>
   (\<And>b p w w' err. I b p w \<Longrightarrow> length p > Available b \<Longrightarrow> werr b = None \<Longrightarrow> buf b = [] \<Longrightarrow>
       File_Write e (wr b) p w = (Some err, w') \<Longrightarrow> I (b\<lparr>werr := Some err\<rparr>) p w') \<Longrightarrow>
   (\<And>b p w b' w'. I b p w \<Longrightarrow> length p > Available b \<Longrightarrow> werr b = None \<Longrightarrow> buf b \<noteq> [] \<Longrightarrow>
       Flush e (b\<lparr>buf := buf b @ take (Available b) p\<rparr>) w = (b', w') \<Longrightarrow>
       I b' (drop (Available b) p) w') \<Longrightarrow>
   (case Write_loop e b p w of
      (b', p', w') \<Rightarrow> I b' p' w' \<and> (length p' \<le> Available b' \<or> werr b' \<noteq> None))"
proof (induction e b p w rule: Write_loop.induct)
  case (1 e b p w)
  note inv = 1(4) and s1 = 1(5) and s2 = 1(6) and s3 = 1(7)
  show ?case
  proof (cases "length p > Available b \<and> werr b = None")
    case False
    then have "length p \<le> Available b \<or> werr b \<noteq> None" by auto
    with inv show ?thesis by (simp add: Write_loop_stop)
  next
    case True
    note go = this
    then have len: "length p > Available b" and ok: "werr b = None" by simp_all
    show ?thesis
    proof (cases "buf b = []")
      case True
      obtain r w' where fw: "File_Write e (wr b) p w = (r, w')"
        by (cases "File_Write e (wr b) p w")
      show ?thesis
      proof (cases r)
        case None
        from s1 [OF inv len ok True] fw None have "I b [] w'" by simp
        from 1(1) [OF go True fw [symmetric] None this s1 s2 s3]
        have IH: "case Write_loop e b [] w' of
            (b', p', w') \<Rightarrow> I b' p' w' \<and> (length p' \<le> Available b' \<or> werr b' \<noteq> None)" .
        have "Write_loop e b p w = Write_loop e b [] w'"
          using fw len ok True None by (simp add: Write_loop_direct)
        with IH show ?thesis by (simp only:)
      next
        case (Some err)
        from s2 [OF inv len ok True] fw Some have "I (b\<lparr>werr := Some err\<rparr>) p w'" by simp
        from 1(2) [OF go True fw [symmetric] Some this s1 s2 s3]
        have IH: "case Write_loop e (b\<lparr>werr := Some err\<rparr>) p w' of
            (b', p', w') \<Rightarrow> I b' p' w' \<and> (length p' \<le> Available b' \<or> werr b' \<noteq> None)" .
        have "Write_loop e b p w = Write_loop e (b\<lparr>werr := Some err\<rparr>) p w'"
          using fw len ok True Some by (simp add: Write_loop_direct)
        with IH show ?thesis by (simp only:)
      qed
    next
      case False
      let ?b1 = "b\<lparr>buf := buf b @ take (Available b) p\<rparr>"
      obtain b' w' where fl: "Flush e ?b1 w = (b', w')"
        by (cases "Flush e ?b1 w")
      from s3 [OF inv len ok False fl] have "I b' (drop (Available b) p) w'" .
      from 1(3) [OF go False fl [symmetric] this s1 s2 s3]
      have IH: "case Write_loop e b' (drop (Available b) p) w' of
          (b', p', w') \<Rightarrow> I b' p' w' \<and> (length p' \<le> Available b' \<or> werr b' \<noteq> None)" .
      have "Write_loop e b p w = Write_loop e b' (drop (Available b) p) w'"
        using fl len ok False by (simp add: Write_loop_fill)
      with IH show ?thesis by (simp only:)
    qed
  qed
qed


lemma Flush_inv:
  "(\<And>q v. Q v \<Longrightarrow> Q (snd (File_Write e f q v))) \<Longrightarrow> wr b = f \<Longrightarrow> Q w \<Longrightarrow>
   Q (snd (Flush e b w)) \<and> wr (fst (Flush e b w)) = f"
proof -
  assume step: "\<And>q v. Q v \<Longrightarrow> Q (snd (File_Write e f q v))" and f: "wr b = f" and w: "Q w"
  from step [OF w, of "buf b"] w f show ?thesis
    by (auto simp: Flush_def split: prod.splits option.splits)
qed

lemma Write_inv:
  assumes step: "\<And>q v. Q v \<Longrightarrow> Q (snd (File_Write e f q v))"
    and f: "wr b = f" and w: "Q w"
  shows "Q (snd (snd (Write e b p w))) \<and> wr (fst (Write e b p w)) = f"
proof -
  have "case Write_loop e b p w of
          (b', p', w') \<Rightarrow> (Q w' \<and> wr b' = f) \<and> (length p' \<le> Available b' \<or> werr b' \<noteq> None)"
  proof (rule Write_loop_rule [where I = "\<lambda>b p w. Q w \<and> wr b = f"], goal_cases)
    case 1
    from f w show ?case by simp
  next
    case (2 b p w w')
    with step [of w p] show ?case by simp
  next
    case (3 b p w w' err)
    with step [of w p] show ?case by simp
  next
    case (4 b p w b' w')
    with Flush_inv [of Q e f "b\<lparr>buf := buf b @ take (Available b) p\<rparr>" w] step
    show ?case by simp
  qed
  then show ?thesis
    by (auto simp: Write_def split: prod.splits)
qed

lemma write_items_inv:
  assumes step: "\<And>q v. Q v \<Longrightarrow> Q (snd (File_Write e f q v))"
  shows "wr b = f \<Longrightarrow> Q w \<Longrightarrow>
         Q (snd (snd (write_items e b cs w))) \<and> wr (fst (write_items e b cs w)) = f"
proof (induction cs arbitrary: b w)
  case Nil
  then show ?case by simp
next
  case (Cons c cs)
  obtain b' r w' where fp: "Fprintf e b c w = (b', r, w')"
    by (cases "Fprintf e b c w")
  with Write_inv [of Q e f b w "comment_line c", OF step Cons.prems]
  have "Q w'" "wr b' = f" by (simp_all add: Fprintf_def)
  from Cons.IH [OF this(2) this(1)] this fp show ?case
    by (cases r) simp_all
qed

lemma write_items_kind:
  "fst (snd (write_items e b cs w)) = Some err \<Longrightarrow> kind err = IOError"
proof (induction cs arbitrary: b w)
  case Nil
  then show ?case by simp
next
  case (Cons c cs)
  obtain b' r w' where fp: "Fprintf e b c w = (b', r, w')"
    by (cases "Fprintf e b c w")
  with Cons show ?case by (cases r) auto
qed


lemma files_upd_triv: "files w f = Some c \<Longrightarrow> w\<lparr>files := (files w)(f \<mapsto> c)\<rparr> = w"
  by (simp add: map_upd_triv)

lemma File_Write_ok:
  "Write_err e w f q = None \<Longrightarrow>
   File_Write e f q w = (None, w\<lparr>files := (files w)(f \<mapsto> content w f @ q)\<rparr>)"
  by (simp add: File_Write_def content_def split: option.splits)

lemma Flush_ok:
  assumes ok: "\<And>v q. Write_err e v f q = None"
    and b: "werr b = None" "wr b = f" and c: "files w f = Some c"
  shows "Flush e b w = (b\<lparr>buf := []\<rparr>, w\<lparr>files := (files w)(f \<mapsto> c @ buf b)\<rparr>)"
proof (cases "buf b = []")
  case True
  with b files_upd_triv [OF c] show ?thesis by (simp add: Flush_def)
next
  case False
  with b c File_Write_ok [of e w f "buf b", OF ok] show ?thesis
    by (simp add: Flush_def content_def)
qed

lemma Write_ok:
  assumes ok: "\<And>v q. Write_err e v f q = None"
    and b: "werr b = None" "wr b = f" and c: "files w f = Some c"
  shows "\<exists>b' c'. Write e b p w = (b', None, w\<lparr>files := (files w)(f \<mapsto> c')\<rparr>) \<and>
           werr b' = None \<and> wr b' = f \<and> c' @ buf b' = c @ buf b @ p"
proof -
  let ?I = "\<lambda>b1 p1 w1. werr b1 = None \<and> wr b1 = f \<and>
              (\<exists>c'. w1 = w\<lparr>files := (files w)(f \<mapsto> c')\<rparr> \<and> c' @ buf b1 @ p1 = c @ buf b @ p)"
  have "case Write_loop e b p w of
          (b', p', w') \<Rightarrow> ?I b' p' w' \<and> (length p' \<le> Available b' \<or> werr b' \<noteq> None)"
  proof (rule Write_loop_rule [where I = ?I], goal_cases)
    case 1
    have "w = w\<lparr>files := (files w)(f \<mapsto> c)\<rparr> \<and> c @ buf b @ p = c @ buf b @ p"
      using files_upd_triv [OF c] by simp
    then have "\<exists>c'. w = w\<lparr>files := (files w)(f \<mapsto> c')\<rparr> \<and> c' @ buf b @ p = c @ buf b @ p"
      by (rule exI)
    with b show ?case by simp
  next
    case (2 b1 p1 w1 w')
    then obtain c' where c': "w1 = w\<lparr>files := (files w)(f \<mapsto> c')\<rparr>" "c' @ buf b1 @ p1 = c @ buf b @ p"
      by blast
    from 2 File_Write_ok [of e w1 f p1, OF ok]
    have "w' = w1\<lparr>files := (files w1)(f \<mapsto> content w1 f @ p1)\<rparr>" by simp
    with c' 2 have "w' = w\<lparr>files := (files w)(f \<mapsto> c' @ p1)\<rparr> \<and> (c' @ p1) @ buf b1 @ [] = c @ buf b @ p"
      by (simp add: content_def)
    then have "\<exists>x. w' = w\<lparr>files := (files w)(f \<mapsto> x)\<rparr> \<and> x @ buf b1 @ [] = c @ buf b @ p"
      by (rule exI)
    with 2 show ?case by simp
  next
    case (3 b1 p1 w1 w' err)
    with File_Write_ok [of e w1 f p1, OF ok] show ?case by simp
  next
    case (4 b1 p1 w1 b' w')
    then obtain c' where c': "w1 = w\<lparr>files := (files w)(f \<mapsto> c')\<rparr>" "c' @ buf b1 @ p1 = c @ buf b @ p"
      by blast
    let ?b2 = "b1\<lparr>buf := buf b1 @ take (Available b1) p1\<rparr>"
    from c'(1) have "files w1 f = Some c'" by simp
    from Flush_ok [OF ok _ _ this, of ?b2] 4
    have r: "b' = ?b2\<lparr>buf := []\<rparr>" "w' = w1\<lparr>files := (files w1)(f \<mapsto> c' @ buf ?b2)\<rparr>"
      by simp_all
    have "(c' @ buf b1 @ take (Available b1) p1) @ drop (Available b1) p1 = c' @ buf b1 @ p1"
      by simp
    with r c' have "w' = w\<lparr>files := (files w)(f \<mapsto> c' @ buf b1 @ take (Available b1) p1)\<rparr> \<and>
        (c' @ buf b1 @ take (Available b1) p1) @ buf b' @ drop (Available b1) p1 = c @ buf b @ p"
      by simp
    then have "\<exists>x. w' = w\<lparr>files := (files w)(f \<mapsto> x)\<rparr> \<and>
        x @ buf b' @ drop (Available b1) p1 = c @ buf b @ p"
      by (rule exI)
    with r 4 show ?case by simp
  qed
  then obtain b1 p1 w1 c' where
    r: "Write_loop e b p w = (b1, p1, w1)" "werr b1 = None" "wr b1 = f"
       "w1 = w\<lparr>files := (files w)(f \<mapsto> c')\<rparr>" "c' @ buf b1 @ p1 = c @ buf b @ p"
    by (cases "Write_loop e b p w") auto
  then have "Write e b p w = (b1\<lparr>buf := buf b1 @ p1\<rparr>, None, w\<lparr>files := (files w)(f \<mapsto> c')\<rparr>) \<and>
      werr (b1\<lparr>buf := buf b1 @ p1\<rparr>) = None \<and> wr (b1\<lparr>buf := buf b1 @ p1\<rparr>) = f \<and>
      c' @ buf (b1\<lparr>buf := buf b1 @ p1\<rparr>) = c @ buf b @ p"
    by (simp add: Write_def)
  then show ?thesis by blast
qed

lemma write_items_ok:
  assumes ok: "\<And>v q. Write_err e v f q = None"
  shows "werr b = None \<Longrightarrow> wr b = f \<Longrightarrow> files w f = Some c \<Longrightarrow>
         \<exists>b' c'. write_items e b cs w = (b', None, w\<lparr>files := (files w)(f \<mapsto> c')\<rparr>) \<and>
           werr b' = None \<and> wr b' = f \<and>
           c' @ buf b' = c @ buf b @ concat (map comment_line cs)"
proof (induction cs arbitrary: b w c)
  case Nil
  have "write_items e b [] w = (b, None, w\<lparr>files := (files w)(f \<mapsto> c)\<rparr>) \<and>
      werr b = None \<and> wr b = f \<and> c @ buf b = c @ buf b @ concat (map comment_line [])"
    using files_upd_triv [OF Nil(3)] Nil(1,2) by simp
  then show ?case by blast
next
  case (Cons x cs)
  from Write_ok [OF ok Cons.prems, of "comment_line x"]
  obtain b1 c1 where w1: "Fprintf e b x w = (b1, None, w\<lparr>files := (files w)(f \<mapsto> c1)\<rparr>)"
      "werr b1 = None" "wr b1 = f" "c1 @ buf b1 = c @ buf b @ comment_line x"
    by (auto simp: Fprintf_def)
  let ?w1 = "w\<lparr>files := (files w)(f \<mapsto> c1)\<rparr>"
  have "files ?w1 f = Some c1" by simp
  from Cons.IH [OF w1(2,3) this] obtain b' c' where
    r: "write_items e b1 cs ?w1 = (b', None, ?w1\<lparr>files := (files ?w1)(f \<mapsto> c')\<rparr>)"
       "werr b' = None" "wr b' = f" "c' @ buf b' = c1 @ buf b1 @ concat (map comment_line cs)"
    by blast
  from r(4) w1(4) have "c' @ buf b' = c @ buf b @ concat (map comment_line (x # cs))"
    by simp
  moreover from w1(1) r(1)
  have "write_items e b (x # cs) w = (b', None, w\<lparr>files := (files w)(f \<mapsto> c')\<rparr>)"
    by simp
  ultimately show ?case using r(2,3) by blast
qed


lemma File_Write_frame:
  "trace (snd (File_Write e f q v)) = trace v"
  "console (snd (File_Write e f q v)) = console v"
  "now (snd (File_Write e f q v)) = now v"
  by (simp_all add: File_Write_def split: option.splits)

lemma File_Write_other: "g \<noteq> f \<Longrightarrow> files (snd (File_Write e f q v)) g = files v g"
  by (simp add: File_Write_def split: option.splits)

lemma operation_remote_fail:
  assumes new: "youtube_New e key = None"
    and vid: "getVideoId e url = Inr vid"
    and opn: "OpenFile_err e w (filename_of vid) = None"
    and rem: "CommentThreads_List_Do e (snd (OpenFile e (filename_of vid) w)) key vid n = Inl m"
  shows "operation e url n key w =
           (Some (Error RemoteError (errorAPICallMsg @ '': '' @ m)),
            w\<lparr>files := (files w)(filename_of vid \<mapsto> content w (filename_of vid)),
              trace := trace w @ [RemoteCall key vid n]\<rparr>)"
  using assms
  by (simp add: operation_def OpenFile_def deferred_def Flush_def NewWriter_def content_def
           Let_def)

lemma operation_ok:
  assumes new: "youtube_New e key = None"
    and vid: "getVideoId e url = Inr vid"
    and opn: "OpenFile_err e w (filename_of vid) = None"
    and ok: "\<And>v q. Write_err e v (filename_of vid) q = None"
    and rem: "CommentThreads_List_Do e (snd (OpenFile e (filename_of vid) w)) key vid n = Inr items"
  shows "operation e url n key w =
           (None,
            w\<lparr>files := (files w)(filename_of vid \<mapsto>
                        content w (filename_of vid) @ concat (map comment_line items)),
              trace := trace w @ [RemoteCall key vid n]\<rparr>)"
proof -
  let ?f = "filename_of vid"
  let ?w1 = "w\<lparr>files := (files w)(?f \<mapsto> content w ?f)\<rparr>"
  let ?w2 = "?w1\<lparr>trace := trace w @ [RemoteCall key vid n]\<rparr>"
  have o: "OpenFile e ?f w = (Inr ?f, ?w1)"
    using opn by (simp add: OpenFile_def content_def)
  have f2: "files ?w2 ?f = Some (content w ?f)" by simp
  from write_items_ok [OF ok _ _ f2, of "NewWriter ?f" items]
  obtain b' c' where wi: "write_items e (NewWriter ?f) items ?w2 =
        (b', None, ?w2\<lparr>files := (files ?w2)(?f \<mapsto> c')\<rparr>)"
      "werr b' = None" "wr b' = ?f" "c' @ buf b' = content w ?f @ concat (map comment_line items)"
    by (auto simp: NewWriter_def)
  let ?w3 = "?w2\<lparr>files := (files ?w2)(?f \<mapsto> c')\<rparr>"
  have "files ?w3 ?f = Some c'" by simp
  from Flush_ok [OF ok wi(2,3) this] wi(4)
  have fl: "snd (Flush e b' ?w3) =
      w\<lparr>files := (files w)(?f \<mapsto> content w ?f @ concat (map comment_line items)),
        trace := trace w @ [RemoteCall key vid n]\<rparr>"
    by simp
  from new vid o rem wi(1) fl show ?thesis
    by (simp add: operation_def deferred_def Let_def)
qed

lemma operation_frame:
  "console (snd (operation e url n key w)) = console w \<and>
   now (snd (operation e url n key w)) = now w \<and>
   (\<exists>es. trace (snd (operation e url n key w)) = trace w @ es \<and> list_all is_call es)"
proof -
  have stay: "console w = console w \<and> now w = now w \<and>
      (\<exists>es. trace w = trace w @ es \<and> list_all is_call es)"
    by simp
  show ?thesis
  proof (cases "youtube_New e key")
    case (Some a)
    with stay show ?thesis by (simp add: operation_def)
  next
    case None
    note new = this
    show ?thesis
    proof (cases "getVideoId e url")
      case (Inl a)
      with new stay show ?thesis by (simp add: operation_def)
    next
      case (Inr vid)
      note vid = this
      let ?f = "filename_of vid"
      show ?thesis
      proof (cases "OpenFile_err e w ?f")
        case (Some a)
        with new vid stay show ?thesis by (simp add: operation_def OpenFile_def)
      next
        case None
        let ?w1 = "w\<lparr>files := (files w)(?f \<mapsto> content w ?f)\<rparr>"
        let ?w2 = "?w1\<lparr>trace := trace w @ [RemoteCall key vid n]\<rparr>"
        let ?Q = "\<lambda>v. console v = console w \<and> now v = now w \<and>
                    trace v = trace w @ [RemoteCall key vid n]"
        have o: "OpenFile e ?f w = (Inr ?f, ?w1)"
          using None by (simp add: OpenFile_def content_def)
        have step: "\<And>q v. ?Q v \<Longrightarrow> ?Q (snd (File_Write e ?f q v))"
          by (simp add: File_Write_frame)
        have q2: "?Q ?w2" by simp
        have "?Q (snd (operation e url n key w))"
        proof (cases "CommentThreads_List_Do e ?w1 key vid n")
          case (Inl m)
          with Flush_inv [of ?Q e ?f "NewWriter ?f" ?w2, OF step _ q2] new vid o
          show ?thesis
            by (simp add: operation_def deferred_def Let_def NewWriter_def)
        next
          case (Inr items)
          obtain b' r w3 where wi: "write_items e (NewWriter ?f) items ?w2 = (b', r, w3)"
            by (cases "write_items e (NewWriter ?f) items ?w2")
          with write_items_inv [of ?Q e ?f "NewWriter ?f" ?w2 items, OF step _ q2]
          have "?Q w3" "wr b' = ?f" by (simp_all add: NewWriter_def)
          from Flush_inv [of ?Q e ?f b' w3, OF step this(2) this(1)] new vid o Inr wi
          show ?thesis
            by (simp add: operation_def deferred_def Let_def)
        qed
        then have "console (snd (operation e url n key w)) = console w \<and>
            now (snd (operation e url n key w)) = now w \<and>
            trace (snd (operation e url n key w)) = trace w @ [RemoteCall key vid n] \<and>
            list_all is_call [RemoteCall key vid n]"
          by simp
        then show ?thesis by blast
      qed
    qed
  qed
qed



subsection \<open>One attempt, and the retry loop\<close>

lemma File_Write_exists: "files v g \<noteq> None \<Longrightarrow> files (snd (File_Write e f q v)) g \<noteq> None"
  by (simp add: File_Write_def split: option.splits)

lemma OpenFile_ok:
  "OpenFile_err e w f = None \<Longrightarrow>
   OpenFile e f w = (Inr f, w\<lparr>files := (files w)(f \<mapsto> content w f)\<rparr>)"
  by (simp add: OpenFile_def content_def)

text \<open>
  Once the file is open, whatever holds of the world after the remote call is recorded and
  is kept by writes to the file holds of the world after the attempt.
\<close>

lemma operation_inv:
  assumes new: "youtube_New e key = None"
    and vid: "getVideoId e url = Inr vid"
    and opn: "OpenFile_err e w (filename_of vid) = None"
    and step: "\<And>q v. Q v \<Longrightarrow> Q (snd (File_Write e (filename_of vid) q v))"
    and q: "Q (w\<lparr>files := (files w)(filename_of vid \<mapsto> content w (filename_of vid)),
                 trace := trace w @ [RemoteCall key vid n]\<rparr>)"
  shows "Q (snd (operation e url n key w))"
proof -
  let ?f = "filename_of vid"
  let ?w1 = "w\<lparr>files := (files w)(?f \<mapsto> content w ?f)\<rparr>"
  let ?w2 = "?w1\<lparr>trace := trace w @ [RemoteCall key vid n]\<rparr>"
  note o = OpenFile_ok [OF opn]
  from q have q2: "Q ?w2" by simp
  show ?thesis
  proof (cases "CommentThreads_List_Do e ?w1 key vid n")
    case (Inl m)
    with Flush_inv [of Q e ?f "NewWriter ?f" ?w2, OF step _ q2] new vid o
    show ?thesis
      by (simp add: operation_def deferred_def Let_def NewWriter_def)
  next
    case (Inr items)
    obtain b' r w3 where wi: "write_items e (NewWriter ?f) items ?w2 = (b', r, w3)"
      by (cases "write_items e (NewWriter ?f) items ?w2")
    with write_items_inv [of Q e ?f "NewWriter ?f" ?w2 items, OF step _ q2]
    have "Q w3" "wr b' = ?f" by (simp_all add: NewWriter_def)
    from Flush_inv [of Q e ?f b' w3, OF step this(2) this(1)] new vid o Inr wi
    show ?thesis
      by (simp add: operation_def deferred_def Let_def)
  qed
qed

lemma operation_early:
  "youtube_New e key = Some m \<Longrightarrow>
     operation e url n key w =
       (Some (Error ClientError (''error creating new YouTube client: '' @ m)), w)"
  "youtube_New e key = None \<Longrightarrow> getVideoId e url = Inl m \<Longrightarrow>
     operation e url n key w = (Some (Error InputError (invalidURLMsg @ '': '' @ m)), w)"
  "youtube_New e key = None \<Longrightarrow> getVideoId e url = Inr vid \<Longrightarrow>
     OpenFile_err e w (filename_of vid) = Some m \<Longrightarrow>
     operation e url n key w = (Some (Error IOError (errorWritingFileMsg @ '': '' @ m)), w)"
  by (simp_all add: operation_def OpenFile_def)

lemma operation_calls:
  assumes "youtube_New e key = None" "getVideoId e url = Inr vid"
    "OpenFile_err e w (filename_of vid) = None"
  shows "trace (snd (operation e url n key w)) = trace w @ [RemoteCall key vid n]"
    and "files (snd (operation e url n key w)) (filename_of vid) \<noteq> None"
    and "console (snd (operation e url n key w)) = console w"
    and "now (snd (operation e url n key w)) = now w"
  by (rule operation_inv [OF assms]; simp add: File_Write_frame File_Write_exists)+

lemma operation_other_files:
  assumes vid: "getVideoId e url = Inr vid" and g: "g \<noteq> filename_of vid"
  shows "files (snd (operation e url n key w)) g = files w g"
proof (cases "youtube_New e key")
  case (Some m)
  then show ?thesis by (simp add: operation_early)
next
  case None
  show ?thesis
  proof (cases "OpenFile_err e w (filename_of vid)")
    case (Some m)
    with None vid show ?thesis by (simp add: operation_early)
  next
    case opn: None
    show ?thesis
      by (rule operation_inv [OF None vid opn]) (simp_all add: File_Write_other g)
  qed
qed

lemma operation_kind:
  assumes "fst (operation e url n key w) = Some err"
  shows "(kind err = ClientError \<and> youtube_New e key \<noteq> None) \<or>
         (kind err = InputError \<and> youtube_New e key = None \<and> (\<exists>m. url_Parse e url = Inl m)) \<or>
         ((kind err = IOError \<or> kind err = RemoteError) \<and> youtube_New e key = None \<and>
            (\<exists>u. url_Parse e url = Inr u))"
proof (cases "youtube_New e key")
  case (Some m)
  with assms show ?thesis by (auto simp: operation_early)
next
  case None
  show ?thesis
  proof (cases "url_Parse e url")
    case (Inl m)
    then have "getVideoId e url = Inl (''failed to parse URL: '' @ m)"
      by (simp add: getVideoId_def)
    with None assms Inl show ?thesis by (auto simp: operation_early)
  next
    case (Inr u)
    then have vid: "getVideoId e url = Inr (Values_Get (Query u) ''v'')"
      by (simp add: getVideoId_def)
    let ?vid = "Values_Get (Query u) ''v''"
    have "kind err = IOError \<or> kind err = RemoteError"
    proof (cases "OpenFile_err e w (filename_of ?vid)")
      case (Some m)
      with None vid assms show ?thesis by (auto simp: operation_early)
    next
      case opn: None
      note o = OpenFile_ok [OF opn]
      let ?w1 = "w\<lparr>files := (files w)(filename_of ?vid \<mapsto> content w (filename_of ?vid))\<rparr>"
      show ?thesis
      proof (cases "CommentThreads_List_Do e ?w1 key ?vid n")
        case (Inl m)
        with None vid o assms show ?thesis
          by (auto simp: operation_def deferred_def Let_def)
      next
        case (Inr items)
        let ?w2 = "?w1\<lparr>trace := trace w @ [RemoteCall key ?vid n]\<rparr>"
        obtain b' r w3 where
          wi: "write_items e (NewWriter (filename_of ?vid)) items ?w2 = (b', r, w3)"
          by (cases "write_items e (NewWriter (filename_of ?vid)) items ?w2")
        with None vid o assms Inr have "r = Some err"
          by (simp add: operation_def deferred_def Let_def)
        with wi write_items_kind [of e "NewWriter (filename_of ?vid)" items ?w2 err]
        show ?thesis by simp
      qed
    qed
    with None Inr show ?thesis by simp
  qed
qed

lemma Retry_inv:
  assumes op: "\<And>v. P v \<Longrightarrow> P (snd (oper v))"
    and sl: "\<And>v d. P v \<Longrightarrow> P (v\<lparr>now := now v + d\<rparr>)"
  shows "P w \<Longrightarrow> P (snd (Retry oper ds w))"
proof (induction ds arbitrary: w)
  case Nil
  then show ?case by (simp add: op)
next
  case (Cons d ds)
  obtain r w' where o: "oper w = (r, w')" by (cases "oper w")
  with op [OF Cons.prems] have w': "P w'" by simp
  show ?case
  proof (cases r)
    case None
    with o w' show ?thesis by simp
  next
    case (Some err)
    from Cons.IH [OF sl [OF w', of d]] o Some show ?thesis by simp
  qed
qed

lemma Retry_error_from_attempt:
  "fst (Retry oper ds w) = Some err \<Longrightarrow> \<exists>v. fst (oper v) = Some err"
proof (induction ds arbitrary: w)
  case Nil
  then show ?case by auto
next
  case (Cons d ds)
  obtain r w' where o: "oper w = (r, w')" by (cases "oper w")
  with Cons show ?case by (cases r) auto
qed

lemma Retry_exhausted_clock:
  assumes op: "\<And>v. now (snd (oper v)) = now v"
  shows "fst (Retry oper ds w) = Some err \<Longrightarrow> now (snd (Retry oper ds w)) = now w + sum_list ds"
proof (induction ds arbitrary: w)
  case Nil
  then show ?case by (simp add: op)
next
  case (Cons d ds)
  obtain r w' where o: "oper w = (r, w')" by (cases "oper w")
  with op [of w] have n: "now w' = now w" by simp
  show ?case
  proof (cases r)
    case None
    with o Cons.prems show ?thesis by simp
  next
    case (Some e)
    with o Cons.prems have "fst (Retry oper ds (w'\<lparr>now := now w' + d\<rparr>)) = Some err" by simp
    from Cons.IH [OF this] o Some n show ?thesis by simp
  qed
qed

lemma Retry_operation_frame:
  "console (snd (Retry (operation e url n key) ds w)) = console w \<and>
   (\<exists>es. trace (snd (Retry (operation e url n key) ds w)) = trace w @ es \<and> list_all is_call es)"
proof (rule Retry_inv [where P = "\<lambda>v. console v = console w \<and>
          (\<exists>es. trace v = trace w @ es \<and> list_all is_call es)"], goal_cases)
  case (1 v)
  then obtain es where es: "trace v = trace w @ es" "list_all is_call es" by blast
  from operation_frame [of e url n key v] obtain es' where
    "trace (snd (operation e url n key v)) = trace v @ es'" "list_all is_call es'"
    "console (snd (operation e url n key v)) = console v"
    by blast
  with es 1 have "console (snd (operation e url n key v)) = console w \<and>
     trace (snd (operation e url n key v)) = trace w @ (es @ es') \<and> list_all is_call (es @ es')"
    by simp
  then show ?case by blast
next
  case (2 v d)
  then show ?case by simp
next
  case 3
  then show ?case by simp
qed



section \<open>The claims\<close>

subsection \<open>C2: an empty identifier\<close>

text \<open>
  C2 says that identifier extraction never succeeds with an empty identifier: the task fails
  fast with an input error instead. \<^verbatim>\<open>getVideoId\<close> has no such check. For the locator
  \<^verbatim>\<open>https://www.youtube.com/watch\<close>, which has no query, it returns the empty string and
  no error, and the task goes on to the remote call: it ends with the error of the remote
  API after all retries, not with an input error.
\<close>

theorem C2_counterexample:
  "getVideoId demo_env ''https://www.youtube.com/watch'' = Inr [] \<and>
   map_option fst
     (getComments demo_env Background [] [''https://www.youtube.com/watch''] 2 ''KEY'' w0) =
     Some [Exhausted (Error RemoteError
        ''Error during API search call: %v: googleapi: Error 503: backend error'')]"
  by code_simp

text \<open>
  C2, amended: identifier extraction fails exactly when the locator does not parse as a URL,
  and an attempt ends with an input error exactly then; when the locator parses, extraction
  succeeds with the first value of the query parameter \<^verbatim>\<open>v\<close>, which is the empty string
  when the parameter is absent or empty.
\<close>

theorem C2_amended:
  "((\<exists>m. getVideoId e loc = Inl m) \<longleftrightarrow> (\<exists>m. url_Parse e loc = Inl m)) \<and>
   (\<forall>u. url_Parse e loc = Inr u \<longrightarrow> getVideoId e loc = Inr (Values_Get (Query u) ''v'')) \<and>
   (youtube_New e key = None \<longrightarrow>
      ((\<exists>m. fst (operation e loc n key w) = Some (Error InputError m)) \<longleftrightarrow>
       (\<exists>m. url_Parse e loc = Inl m)))"
proof (intro conjI allI impI)
  show "(\<exists>m. getVideoId e loc = Inl m) \<longleftrightarrow> (\<exists>m. url_Parse e loc = Inl m)"
    by (cases "url_Parse e loc") (simp_all add: getVideoId_def)
next
  fix u assume "url_Parse e loc = Inr u"
  then show "getVideoId e loc = Inr (Values_Get (Query u) ''v'')"
    by (simp add: getVideoId_def)
next
  assume new: "youtube_New e key = None"
  show "(\<exists>m. fst (operation e loc n key w) = Some (Error InputError m)) \<longleftrightarrow>
        (\<exists>m. url_Parse e loc = Inl m)"
  proof
    assume "\<exists>m. fst (operation e loc n key w) = Some (Error InputError m)"
    then obtain m where "fst (operation e loc n key w) = Some (Error InputError m)" ..
    from operation_kind [OF this] show "\<exists>m. url_Parse e loc = Inl m" by simp
  next
    assume "\<exists>m. url_Parse e loc = Inl m"
    then obtain m where "url_Parse e loc = Inl m" ..
    then have "getVideoId e loc = Inl (''failed to parse URL: '' @ m)"
      by (simp add: getVideoId_def)
    from operation_early(2) [OF new this]
    show "\<exists>m. fst (operation e loc n key w) = Some (Error InputError m)" by simp
  qed
qed

text \<open>
  The amended C2 at the locator without a query and at the malformed locator
  \<^verbatim>\<open>://bad\<close> of the concrete environment.
\<close>

theorem C2_witness:
  "url_Parse demo_env ''https://www.youtube.com/watch'' = Inr (URL Map.empty) \<and>
   getVideoId demo_env ''https://www.youtube.com/watch'' = Inr [] \<and>
   youtube_New demo_env ''KEY'' = None \<and>
   (\<exists>m. url_Parse demo_env ''://bad'' = Inl m) \<and>
   (\<exists>m. fst (operation demo_env ''://bad'' 2 ''KEY'' w0) = Some (Error InputError m))"
proof -
  have p: "url_Parse demo_env ''https://www.youtube.com/watch'' = Inr (URL Map.empty)"
    by (simp add: demo_env_def demo_Parse_def demo_ids_def)
  have b: "\<exists>m. url_Parse demo_env ''://bad'' = Inl m"
    by (simp add: demo_env_def demo_Parse_def demo_ids_def)
  have n: "youtube_New demo_env ''KEY'' = None"
    by (simp add: demo_env_def)
  from C2_amended [of demo_env "''https://www.youtube.com/watch''" "''KEY''" 2 w0] p
  have "getVideoId demo_env ''https://www.youtube.com/watch'' = Inr []"
    by (simp add: Values_Get_def)
  moreover from C2_amended [of demo_env "''://bad''" "''KEY''" 2 w0] b n
  have "\<exists>m. fst (operation demo_env ''://bad'' 2 ''KEY'' w0) = Some (Error InputError m)"
    by blast
  ultimately show ?thesis using p b n by blast
qed

subsection \<open>C10: a locator without the parameter v\<close>

lemma task_outcome_from_attempt:
  "fst (task e ctx n key url lw) = Exhausted err \<Longrightarrow> \<exists>v. fst (operation e url n key v) = Some err"
proof -
  assume a: "fst (task e ctx n key url lw) = Exhausted err"
  obtain l w where lw: "lw = (l, w)" by (cases lw)
  obtain r l' t where wt: "Wait l ctx (now w) = (r, l', t)" by (cases "Wait l ctx (now w)")
  show ?thesis
  proof (cases r)
    case (Inl x)
    with a lw wt show ?thesis by (simp add: task_def)
  next
    case (Inr u)
    let ?w1 = "w\<lparr>now := t, trace := trace w @ [PermitAcquired]\<rparr>"
    obtain r2 w2 where rt: "Retry (operation e url n key) (NewExponentialBackOff e ?w1) ?w1 = (r2, w2)"
      by (cases "Retry (operation e url n key) (NewExponentialBackOff e ?w1) ?w1")
    with a lw wt Inr have "r2 = Some err"
      by (cases r2) (simp_all add: task_def Let_def)
    with rt Retry_error_from_attempt [of "operation e url n key" "NewExponentialBackOff e ?w1" ?w1 err]
    show ?thesis by simp
  qed
qed

text \<open>
  C10: for every locator that parses as a URL whose query has no parameter \<^verbatim>\<open>v\<close>,
  \<^verbatim>\<open>getVideoId\<close> returns the empty string and no error, and the task goes on with the
  empty identifier: the file it opens is \<^verbatim>\<open>comments_.txt\<close>, the remote call is issued for
  the empty identifier, and the task never ends with an input error.
\<close>

theorem C10_no_v_parameter:
  assumes p: "url_Parse e loc = Inr u" and q: "Query u ''v'' = None"
  shows "getVideoId e loc = Inr [] \<and> filename_of [] = ''comments_.txt'' \<and>
         (youtube_New e key = None \<longrightarrow> OpenFile_err e w ''comments_.txt'' = None \<longrightarrow>
            files (snd (operation e loc n key w)) ''comments_.txt'' \<noteq> None \<and>
            trace (snd (operation e loc n key w)) = trace w @ [RemoteCall key [] n]) \<and>
         (\<forall>err. fst (task e ctx n key loc (l, w)) = Exhausted err \<longrightarrow> kind err \<noteq> InputError)"
proof -
  from p q have vid: "getVideoId e loc = Inr []"
    by (simp add: getVideoId_def Values_Get_def)
  have f: "filename_of [] = ''comments_.txt''"
    by (simp add: filename_of_def defaultCommentsFileName_def)
  have "files (snd (operation e loc n key w)) ''comments_.txt'' \<noteq> None \<and>
        trace (snd (operation e loc n key w)) = trace w @ [RemoteCall key [] n]"
    if "youtube_New e key = None" "OpenFile_err e w ''comments_.txt'' = None"
    using operation_calls(1,2) [OF that(1) vid, of w n] that(2) f by simp
  moreover have "kind err \<noteq> InputError" if "fst (task e ctx n key loc (l, w)) = Exhausted err" for err
  proof -
    from task_outcome_from_attempt [OF that] obtain v where
      "fst (operation e loc n key v) = Some err" ..
    from operation_kind [OF this] p show ?thesis by auto
  qed
  ultimately show ?thesis using vid f by blast
qed

text \<open>C10 at the locator without a query of the concrete environment.\<close>

theorem C10_witness:
  "url_Parse demo_env ''https://www.youtube.com/watch'' = Inr (URL Map.empty) \<and>
   Query (URL Map.empty) ''v'' = None \<and>
   getVideoId demo_env ''https://www.youtube.com/watch'' = Inr [] \<and>
   youtube_New demo_env ''KEY'' = None \<and> OpenFile_err demo_env w0 ''comments_.txt'' = None \<and>
   files (snd (operation demo_env ''https://www.youtube.com/watch'' 2 ''KEY'' w0)) ''comments_.txt'' \<noteq> None \<and>
   trace (snd (operation demo_env ''https://www.youtube.com/watch'' 2 ''KEY'' w0)) =
     trace w0 @ [RemoteCall ''KEY'' [] 2]"
proof -
  have p: "url_Parse demo_env ''https://www.youtube.com/watch'' = Inr (URL Map.empty)"
    by (simp add: demo_env_def demo_Parse_def demo_ids_def)
  have q: "Query (URL Map.empty) ''v'' = None" by simp
  have n: "youtube_New demo_env ''KEY'' = None" "OpenFile_err demo_env w0 ''comments_.txt'' = None"
    by (simp_all add: demo_env_def)
  from C10_no_v_parameter [OF p q, of "''KEY''" w0 2 Background limiter0] p q n
  show ?thesis by simp
qed

subsection \<open>C1: permits and retries\<close>

text \<open>
  C1 says that every retry attempt acquires a permit of its own before its remote call.
  In \<^verbatim>\<open>getComments\<close> the call \<^verbatim>\<open>limiter.Wait\<close> stands before \<^verbatim>\<open>backoff.Retry\<close>,
  outside the closure that is retried. For a video whose first remote call fails and whose
  second succeeds, the trace of the run holds one permit followed by two remote calls: the
  second call has no permit of its own.
\<close>

theorem C1_counterexample:
  "map_option (\<lambda>(rs, w'). trace w')
     (getComments demo_env Background [] [''https://www.youtube.com/watch?v=flaky01''] 2 ''KEY'' w0) =
     Some [PermitAcquired, RemoteCall ''KEY'' ''flaky01'' 2, RemoteCall ''KEY'' ''flaky01'' 2] \<and>
   \<not> covered 0 [PermitAcquired, RemoteCall ''KEY'' ''flaky01'' 2, RemoteCall ''KEY'' ''flaky01'' 2]"
  by code_simp

text \<open>
  C1, amended: a task acquires one permit, before its first attempt; every remote call of
  the task, the first and those of the retries, comes after that one permit, and the
  retries acquire no further permit. A task that the limiter refuses issues no remote call.
\<close>

theorem C1_amended:
  "\<exists>cs. list_all is_call cs \<and>
     trace (snd (snd (task e ctx n key url (l, w)))) =
       trace w @ (case fst (task e ctx n key url (l, w)) of
                    Cancelled err \<Rightarrow> []
                  | Succeeded \<Rightarrow> PermitAcquired # cs
                  | Exhausted err \<Rightarrow> PermitAcquired # cs)"
proof -
  obtain r l' t where wt: "Wait l ctx (now w) = (r, l', t)" by (cases "Wait l ctx (now w)")
  show ?thesis
  proof (cases r)
    case (Inl x)
    with wt have "list_all is_call [] \<and>
        trace (snd (snd (task e ctx n key url (l, w)))) =
          trace w @ (case fst (task e ctx n key url (l, w)) of
                       Cancelled err \<Rightarrow> []
                     | Succeeded \<Rightarrow> PermitAcquired # []
                     | Exhausted err \<Rightarrow> PermitAcquired # [])"
      by (simp add: task_def)
    then show ?thesis by (rule exI)
  next
    case (Inr u)
    let ?w1 = "w\<lparr>now := t, trace := trace w @ [PermitAcquired]\<rparr>"
    let ?ds = "NewExponentialBackOff e ?w1"
    obtain r2 w2 where rt: "Retry (operation e url n key) ?ds ?w1 = (r2, w2)"
      by (cases "Retry (operation e url n key) ?ds ?w1")
    from Retry_operation_frame [of e url n key ?ds ?w1] rt obtain cs where
      cs: "trace w2 = trace ?w1 @ cs" "list_all is_call cs"
      by auto
    with wt Inr rt have "list_all is_call cs \<and>
        trace (snd (snd (task e ctx n key url (l, w)))) =
          trace w @ (case fst (task e ctx n key url (l, w)) of
                       Cancelled err \<Rightarrow> []
                     | Succeeded \<Rightarrow> PermitAcquired # cs
                     | Exhausted err \<Rightarrow> PermitAcquired # cs)"
      by (cases r2) (simp_all add: task_def Let_def)
    then show ?thesis by (rule exI)
  qed
qed

subsection \<open>One task\<close>

lemma Wait_Background: "fst (Wait l Background t) = Inr ()"
  by (simp add: Wait_def Background_def fired_def Let_def)

lemma Retry_first_success: "oper w = (None, w') \<Longrightarrow> Retry oper ds w = (None, w')"
  by (cases ds) simp_all

lemma Retry_all_fail:
  "(\<And>v. fst (oper v) \<noteq> None) \<Longrightarrow> fst (Retry oper ds w) \<noteq> None"
proof (induction ds arbitrary: w)
  case Nil
  then show ?case by simp
next
  case (Cons d ds)
  obtain r w' where o: "oper w = (r, w')" by (cases "oper w")
  with Cons.prems [of w] obtain err where "r = Some err" by auto
  with o Cons.IH [OF Cons.prems, of "w'\<lparr>now := now w' + d\<rparr>"] show ?case by simp
qed


lemma operation_foreign_file:
  assumes g: "\<And>vid. getVideoId e url = Inr vid \<Longrightarrow> g \<noteq> filename_of vid"
  shows "files (snd (operation e url n key w)) g = files w g"
proof (cases "getVideoId e url")
  case (Inl m)
  then show ?thesis
    by (cases "youtube_New e key") (simp_all add: operation_early)
next
  case (Inr vid)
  from operation_other_files [OF Inr g [OF Inr]] show ?thesis .
qed

lemma task_unfold:
  assumes wt: "Wait l ctx (now w) = (Inr u, l', t)"
    and rt: "Retry (operation e url n key)
               (NewExponentialBackOff e (w\<lparr>now := t, trace := trace w @ [PermitAcquired]\<rparr>))
               (w\<lparr>now := t, trace := trace w @ [PermitAcquired]\<rparr>) = (r, w2)"
  shows "task e ctx n key url (l, w) =
           (case r of
              None \<Rightarrow> (Succeeded, l', w2)
            | Some err \<Rightarrow>
                (Exhausted err, l',
                 w2\<lparr>console := console w2 @ [''Failed to retrieve comments: '' @ msg err]\<rparr>))"
  using wt rt by (cases r) (simp_all add: task_def Let_def)

lemma task_foreign_file:
  assumes g: "\<And>vid. getVideoId e url = Inr vid \<Longrightarrow> g \<noteq> filename_of vid"
  shows "files (snd (snd (task e ctx n key url (l, w)))) g = files w g"
proof -
  obtain r l' t where wt: "Wait l ctx (now w) = (r, l', t)" by (cases "Wait l ctx (now w)")
  show ?thesis
  proof (cases r)
    case (Inl x)
    with wt show ?thesis by (simp add: task_def)
  next
    case (Inr u)
    let ?w1 = "w\<lparr>now := t, trace := trace w @ [PermitAcquired]\<rparr>"
    let ?ds = "NewExponentialBackOff e ?w1"
    obtain r2 w2 where rt: "Retry (operation e url n key) ?ds ?w1 = (r2, w2)"
      by (cases "Retry (operation e url n key) ?ds ?w1")
    have "files (snd (Retry (operation e url n key) ?ds ?w1)) g = files w g"
      by (rule Retry_inv [where P = "\<lambda>v. files v g = files w g"])
         (simp_all add: operation_foreign_file [OF g])
    with rt have "files w2 g = files w g" by simp
    with task_unfold [OF wt [unfolded Inr] rt] show ?thesis
      by (cases r2) simp_all
  qed
qed

lemma task_console:
  "console (snd (snd (task e ctx n key url (l, w)))) =
     console w @ (case fst (task e ctx n key url (l, w)) of
                    Succeeded \<Rightarrow> []
                  | Exhausted err \<Rightarrow> [''Failed to retrieve comments: '' @ msg err]
                  | Cancelled err \<Rightarrow> [''Rate limit error: '' @ msg err])"
proof -
  obtain r l' t where wt: "Wait l ctx (now w) = (r, l', t)" by (cases "Wait l ctx (now w)")
  show ?thesis
  proof (cases r)
    case (Inl x)
    with wt show ?thesis by (simp add: task_def)
  next
    case (Inr u)
    let ?w1 = "w\<lparr>now := t, trace := trace w @ [PermitAcquired]\<rparr>"
    let ?ds = "NewExponentialBackOff e ?w1"
    obtain r2 w2 where rt: "Retry (operation e url n key) ?ds ?w1 = (r2, w2)"
      by (cases "Retry (operation e url n key) ?ds ?w1")
    with Retry_operation_frame [of e url n key ?ds ?w1] have "console w2 = console w" by simp
    with task_unfold [OF wt [unfolded Inr] rt] show ?thesis
      by (cases r2) simp_all
  qed
qed

lemma task_always_fails:
  assumes "\<And>v. fst (operation e url n key v) \<noteq> None"
  shows "\<exists>err. fst (task e Background n key url (l, w)) = Exhausted err"
proof -
  obtain l' t where wt: "Wait l Background (now w) = (Inr (), l', t)"
    using Wait_Background [of l "now w"] by (cases "Wait l Background (now w)") auto
  let ?w1 = "w\<lparr>now := t, trace := trace w @ [PermitAcquired]\<rparr>"
  let ?ds = "NewExponentialBackOff e ?w1"
  obtain r2 w2 where rt: "Retry (operation e url n key) ?ds ?w1 = (r2, w2)"
    by (cases "Retry (operation e url n key) ?ds ?w1")
  with Retry_all_fail [of "operation e url n key" ?ds ?w1, OF assms]
  obtain err where "r2 = Some err" by auto
  with task_unfold [OF wt rt] show ?thesis by simp
qed

lemma task_success:
  assumes new: "youtube_New e key = None"
    and vid: "getVideoId e url = Inr vid"
    and opn: "\<And>v. OpenFile_err e v (filename_of vid) = None"
    and ok: "\<And>v q. Write_err e v (filename_of vid) q = None"
    and rem: "\<And>v. CommentThreads_List_Do e v key vid n = Inr items"
  shows "fst (task e Background n key url (l, w)) = Succeeded \<and>
         files (snd (snd (task e Background n key url (l, w)))) =
           (files w)(filename_of vid \<mapsto>
              content w (filename_of vid) @ concat (map comment_line items))"
proof -
  obtain l' t where wt: "Wait l Background (now w) = (Inr (), l', t)"
    using Wait_Background [of l "now w"] by (cases "Wait l Background (now w)") auto
  let ?w1 = "w\<lparr>now := t, trace := trace w @ [PermitAcquired]\<rparr>"
  let ?ds = "NewExponentialBackOff e ?w1"
  let ?f = "filename_of vid"
  let ?w2 = "?w1\<lparr>files := (files ?w1)(?f \<mapsto> content ?w1 ?f @ concat (map comment_line items)),
                 trace := trace ?w1 @ [RemoteCall key vid n]\<rparr>"
  from operation_ok [OF new vid opn ok rem]
  have "operation e url n key ?w1 = (None, ?w2)" .
  then have rt: "Retry (operation e url n key) ?ds ?w1 = (None, ?w2)"
    by (rule Retry_first_success)
  from task_unfold [OF wt rt] show ?thesis
    by (simp add: content_def)
qed

subsection \<open>The goroutines of a run\<close>

lemma run_done: "runnable (st_gs s) = [] \<Longrightarrow> run e ctx n key sched s = s"
  by (subst run.simps) simp

lemma run_step:
  "runnable (st_gs s) = c # cs \<Longrightarrow>
   run e ctx n key sched s = run e ctx n key (tl sched) (step_at e ctx n key (pick sched (c # cs)) s)"
  by (subst run.simps) simp

lemma pick_runnable:
  assumes "runnable gs = c # cs"
  shows "pick sched (c # cs) < length gs \<and> \<not> finished (gs ! pick sched (c # cs))"
proof -
  have "pick sched (c # cs) \<in> set (c # cs)"
    unfolding pick_def by (rule nth_mem) simp
  with assms have "pick sched (c # cs) \<in> set (runnable gs)" by simp
  then show ?thesis by (simp add: runnable_def)
qed

lemma runnable_Nil: "runnable gs = [] \<longleftrightarrow> (\<forall>g \<in> set gs. finished g)"
  by (auto simp: runnable_def filter_empty_conv in_set_conv_nth all_set_conv_all_nth)

text \<open>
  What holds before the goroutines run and is kept by every step of every goroutine that
  has not finished holds when all have finished, whatever the schedule.
\<close>

lemma run_rule:
  "I s \<Longrightarrow>
   (\<And>s j. I s \<Longrightarrow> j < length (st_gs s) \<Longrightarrow> \<not> finished (st_gs s ! j) \<Longrightarrow>
      I (step_at e ctx n key j s)) \<Longrightarrow>
   I (run e ctx n key sched s) \<and> (\<forall>g \<in> set (st_gs (run e ctx n key sched s)). finished g)"
proof (induction e ctx n key sched s rule: run.induct)
  case (1 e ctx n key sched s)
  note inv = 1(2) and step = 1(3)
  show ?case
  proof (cases "runnable (st_gs s)")
    case Nil
    with inv show ?thesis by (simp add: run_done runnable_Nil [symmetric])
  next
    case (Cons c cs)
    from pick_runnable [OF Cons, of sched] step [OF inv]
    have "I (step_at e ctx n key (pick sched (c # cs)) s)" by simp
    from 1(1) [OF Cons this step] run_step [OF Cons, of e ctx n key sched]
    show ?thesis by simp
  qed
qed

lemma filter_update_length:
  "j < length xs \<Longrightarrow>
   length (filter P (xs[j := y])) + (if P (xs ! j) then 1 else 0) =
   length (filter P xs) + (if P y then 1 else 0)"
proof (induction xs arbitrary: j)
  case Nil
  then show ?case by simp
next
  case (Cons x xs)
  then show ?case by (cases j) auto
qed

lemma gstep_gurl: "gurl (fst (gstep e ctx n key g lw)) = gurl g"
  by (auto simp: gstep_def Let_def split: prod.splits phase.splits sum.splits option.splits list.splits)

lemma step_at_gs:
  "st_gs (step_at e ctx n key j s) =
     (st_gs s)[j := fst (gstep e ctx n key (st_gs s ! j) (st_limiter s, st_world s))]"
  "st_world (step_at e ctx n key j s) =
     snd (snd (gstep e ctx n key (st_gs s ! j) (st_limiter s, st_world s)))"
  "st_wg (step_at e ctx n key j s) =
     (if finished (fst (gstep e ctx n key (st_gs s ! j) (st_limiter s, st_world s)))
      then st_wg s - 1 else st_wg s)"
  by (simp_all add: step_at_def split: prod.splits)

lemma step_at_urls:
  "j < length (st_gs s) \<Longrightarrow> map gurl (st_gs (step_at e ctx n key j s)) = map gurl (st_gs s)"
  by (simp add: step_at_gs map_update gstep_gurl list_update_same_conv)

lemma step_at_wg:
  assumes j: "j < length (st_gs s)" and nf: "\<not> finished (st_gs s ! j)"
    and wg: "st_wg s = length (filter (\<lambda>g. \<not> finished g) (st_gs s))"
  shows "st_wg (step_at e ctx n key j s) =
           length (filter (\<lambda>g. \<not> finished g) (st_gs (step_at e ctx n key j s)))"
  using filter_update_length [OF j, of "\<lambda>g. \<not> finished g"
      "fst (gstep e ctx n key (st_gs s ! j) (st_limiter s, st_world s))"] nf wg
  by (auto simp: step_at_gs)

lemma outcomes_finished:
  "(\<forall>g \<in> set gs. finished g) \<Longrightarrow>
   length (outcomes gs) = length gs \<and> (\<forall>i < length gs. gphase (gs ! i) = Finished (outcomes gs ! i))"
proof (induction gs)
  case Nil
  then show ?case by (simp add: outcomes_def)
next
  case (Cons g gs)
  then obtain r where r: "gphase g = Finished r"
    by (auto simp: finished_def split: phase.splits)
  from Cons have IH: "length (outcomes gs) = length gs"
      "\<forall>i < length gs. gphase (gs ! i) = Finished (outcomes gs ! i)"
    by simp_all
  from r have o: "outcomes (g # gs) = r # outcomes gs" by (simp add: outcomes_def)
  have "gphase ((g # gs) ! i) = Finished (outcomes (g # gs) ! i)" if "i < length (g # gs)" for i
    using that r IH o by (cases i) simp_all
  with IH o show ?case by simp
qed

text \<open>Every run returns: all goroutines finish and the counter of the WaitGroup is zero.\<close>

lemma run_returns:
  assumes wg: "st_wg s = length (filter (\<lambda>g. \<not> finished g) (st_gs s))"
  shows "st_wg (run e ctx n key sched s) = 0 \<and>
         (\<forall>g \<in> set (st_gs (run e ctx n key sched s)). finished g) \<and>
         map gurl (st_gs (run e ctx n key sched s)) = map gurl (st_gs s)"
proof -
  let ?I = "\<lambda>s'. st_wg s' = length (filter (\<lambda>g. \<not> finished g) (st_gs s')) \<and>
                 map gurl (st_gs s') = map gurl (st_gs s)"
  have "?I (run e ctx n key sched s) \<and> (\<forall>g \<in> set (st_gs (run e ctx n key sched s)). finished g)"
    by (rule run_rule [where I = ?I]) (simp_all add: wg step_at_wg step_at_urls)
  then show ?thesis by (simp add: filter_empty_conv)
qed

lemma gstep_Pending:
  "gphase g = Pending \<Longrightarrow>
   gstep e ctx n key g (l, w) =
     (case Wait l ctx (gclock g) of
        (Inl err, l', t) \<Rightarrow>
          (g\<lparr>gclock := t, gphase := Finished (Cancelled err)\<rparr>, l',
           w\<lparr>now := t, console := console w @ [''Rate limit error: '' @ msg err]\<rparr>)
      | (Inr u, l', t) \<Rightarrow>
          (g\<lparr>gclock := t,
             gphase := InFlight (NewExponentialBackOff e (w\<lparr>now := t, trace := trace w @ [PermitAcquired]\<rparr>))\<rparr>,
           l', w\<lparr>now := t, trace := trace w @ [PermitAcquired]\<rparr>))"
  by (simp add: gstep_def Let_def split: prod.splits sum.splits)

lemma gstep_InFlight:
  "gphase g = InFlight ds \<Longrightarrow>
   gstep e ctx n key g (l, w) =
     (case operation e (gurl g) n key (w\<lparr>now := gclock g\<rparr>) of
        (None, w') \<Rightarrow> (g\<lparr>gphase := Finished Succeeded\<rparr>, l, w')
      | (Some err, w') \<Rightarrow>
          (case ds of
             [] \<Rightarrow>
               (g\<lparr>gphase := Finished (Exhausted err)\<rparr>, l,
                w'\<lparr>console := console w' @ [''Failed to retrieve comments: '' @ msg err]\<rparr>)
           | d # ds' \<Rightarrow>
               (g\<lparr>gclock := now w' + d, gphase := InFlight ds'\<rparr>, l,
                w'\<lparr>now := now w' + d\<rparr>)))"
  by (simp add: gstep_def)

lemma gstep_Finished: "gphase g = Finished r \<Longrightarrow> gstep e ctx n key g (l, w) = (g, l, w)"
  by (simp add: gstep_def)












lemma start_facts:
  "\<forall>g \<in> set (st_gs (start w us)). \<not> finished g"
  "st_wg (start w us) = length (filter (\<lambda>g. \<not> finished g) (st_gs (start w us)))"
  "map gurl (st_gs (start w us)) = us"
  "st_world (start w us) = w"
  "\<forall>g \<in> set (st_gs (start w us)). \<forall>err. gphase g \<noteq> Finished (Cancelled err)"
  by (simp_all add: start_def spawn_def finished_def comp_def)

lemma getComments_returns:
  "getComments e ctx sched us n key w =
     Some (outcomes (st_gs (run e ctx n key sched (start w us))),
           st_world (run e ctx n key sched (start w us))) \<and>
   length (outcomes (st_gs (run e ctx n key sched (start w us)))) = length us \<and>
   (\<forall>i < length us.
      gurl (st_gs (run e ctx n key sched (start w us)) ! i) = us ! i \<and>
      gphase (st_gs (run e ctx n key sched (start w us)) ! i) =
        Finished (outcomes (st_gs (run e ctx n key sched (start w us))) ! i))"
proof -
  let ?s = "run e ctx n key sched (start w us)"
  from run_returns [OF start_facts(2) [of w us], where e = e and ctx = ctx and n = n and key = key and sched = sched]
  have wg: "st_wg ?s = 0" and fin: "\<forall>g \<in> set (st_gs ?s). finished g"
    and urls: "map gurl (st_gs ?s) = us"
    by (simp_all add: start_facts)
  from outcomes_finished [OF fin]
  have len: "length (outcomes (st_gs ?s)) = length (st_gs ?s)"
    and ph: "\<forall>i < length (st_gs ?s). gphase (st_gs ?s ! i) = Finished (outcomes (st_gs ?s) ! i)"
    by simp_all
  from urls have l: "length (st_gs ?s) = length us" by (metis length_map)
  have "gurl (st_gs ?s ! i) = us ! i" if "i < length us" for i
    using that urls l by (metis nth_map)
  with wg len ph l show ?thesis by (simp add: getComments_def Let_def)
qed

text \<open>
  One goroutine alone: whatever the schedule, the run is the body of the goroutine run from
  its first line to its last.
\<close>

lemma runnable_single: "runnable [g] = (if finished g then [] else [0])"
  by (simp add: runnable_def)

lemma pick_single: "pick sched [0] = 0"
  by (simp add: pick_def)

lemma run_single_step:
  "\<not> finished g \<Longrightarrow>
   run e ctx n key sched \<lparr>st_gs = [g], st_wg = k, st_limiter = l, st_world = w\<rparr> =
     run e ctx n key (tl sched)
       (step_at e ctx n key 0 \<lparr>st_gs = [g], st_wg = k, st_limiter = l, st_world = w\<rparr>)"
  using run_step [of "\<lparr>st_gs = [g], st_wg = k, st_limiter = l, st_world = w\<rparr>" 0 "[]" e ctx n key sched]
  by (simp add: runnable_single pick_single)

lemma run_single_done:
  "finished g \<Longrightarrow>
   run e ctx n key sched \<lparr>st_gs = [g], st_wg = k, st_limiter = l, st_world = w\<rparr> =
     \<lparr>st_gs = [g], st_wg = k, st_limiter = l, st_world = w\<rparr>"
  by (rule run_done) (simp add: runnable_single)

text \<open>A goroutine that runs alone goes through its attempts as \<open>Retry\<close> does.\<close>

lemma run_single_InFlight:
  "gclock g = now w \<Longrightarrow> gphase g = InFlight ds \<Longrightarrow>
   (case Retry (operation e (gurl g) n key) ds w of
      (None, w2) \<Rightarrow>
        outcomes (st_gs (run e ctx n key sched \<lparr>st_gs = [g], st_wg = k, st_limiter = l, st_world = w\<rparr>)) =
          [Succeeded] \<and>
        st_world (run e ctx n key sched \<lparr>st_gs = [g], st_wg = k, st_limiter = l, st_world = w\<rparr>) = w2
    | (Some err, w2) \<Rightarrow>
        outcomes (st_gs (run e ctx n key sched \<lparr>st_gs = [g], st_wg = k, st_limiter = l, st_world = w\<rparr>)) =
          [Exhausted err] \<and>
        st_world (run e ctx n key sched \<lparr>st_gs = [g], st_wg = k, st_limiter = l, st_world = w\<rparr>) =
          w2\<lparr>console := console w2 @ [''Failed to retrieve comments: '' @ msg err]\<rparr>)"
proof (induction ds arbitrary: g w sched k)
  case Nil
  let ?s = "\<lparr>st_gs = [g], st_wg = k, st_limiter = l, st_world = w\<rparr>"
  from Nil have nf: "\<not> finished g" by (simp add: finished_def)
  from Nil(1) have w: "w\<lparr>now := gclock g\<rparr> = w" by simp
  obtain r w' where o: "operation e (gurl g) n key w = (r, w')"
    by (cases "operation e (gurl g) n key w")
  show ?case
  proof (cases r)
    case None
    with o w Nil(2) have "step_at e ctx n key 0 ?s =
        \<lparr>st_gs = [g\<lparr>gphase := Finished Succeeded\<rparr>], st_wg = k - 1, st_limiter = l, st_world = w'\<rparr>"
      by (simp add: step_at_def gstep_InFlight finished_def)
    with run_single_step [OF nf, of e ctx n key sched k l w] o None show ?thesis
      by (simp add: run_single_done finished_def outcomes_def)
  next
    case (Some err)
    with o w Nil(2) have "step_at e ctx n key 0 ?s =
        \<lparr>st_gs = [g\<lparr>gphase := Finished (Exhausted err)\<rparr>], st_wg = k - 1, st_limiter = l,
         st_world = w'\<lparr>console := console w' @ [''Failed to retrieve comments: '' @ msg err]\<rparr>\<rparr>"
      by (simp add: step_at_def gstep_InFlight finished_def)
    with run_single_step [OF nf, of e ctx n key sched k l w] o Some show ?thesis
      by (simp add: run_single_done finished_def outcomes_def)
  qed
next
  case (Cons d ds)
  let ?s = "\<lparr>st_gs = [g], st_wg = k, st_limiter = l, st_world = w\<rparr>"
  from Cons.prems have nf: "\<not> finished g" by (simp add: finished_def)
  from Cons.prems(1) have w: "w\<lparr>now := gclock g\<rparr> = w" by simp
  obtain r w' where o: "operation e (gurl g) n key w = (r, w')"
    by (cases "operation e (gurl g) n key w")
  show ?case
  proof (cases r)
    case None
    with o w Cons.prems(2) have "step_at e ctx n key 0 ?s =
        \<lparr>st_gs = [g\<lparr>gphase := Finished Succeeded\<rparr>], st_wg = k - 1, st_limiter = l, st_world = w'\<rparr>"
      by (simp add: step_at_def gstep_InFlight finished_def)
    with run_single_step [OF nf, of e ctx n key sched k l w] o None show ?thesis
      by (simp add: run_single_done finished_def outcomes_def)
  next
    case (Some err)
    let ?g' = "g\<lparr>gclock := now w' + d, gphase := InFlight ds\<rparr>"
    let ?w' = "w'\<lparr>now := now w' + d\<rparr>"
    from Some o w Cons.prems(2) have st: "step_at e ctx n key 0 ?s =
        \<lparr>st_gs = [?g'], st_wg = k, st_limiter = l, st_world = ?w'\<rparr>"
      by (simp add: step_at_def gstep_InFlight finished_def)
    have "gclock ?g' = now ?w'" "gphase ?g' = InFlight ds" by simp_all
    from Cons.IH [OF this, of "tl sched" k]
    have IH: "case Retry (operation e (gurl g) n key) ds ?w' of
      (None, w2) \<Rightarrow>
        outcomes (st_gs (run e ctx n key (tl sched) \<lparr>st_gs = [?g'], st_wg = k, st_limiter = l, st_world = ?w'\<rparr>)) =
          [Succeeded] \<and>
        st_world (run e ctx n key (tl sched) \<lparr>st_gs = [?g'], st_wg = k, st_limiter = l, st_world = ?w'\<rparr>) = w2
    | (Some err, w2) \<Rightarrow>
        outcomes (st_gs (run e ctx n key (tl sched) \<lparr>st_gs = [?g'], st_wg = k, st_limiter = l, st_world = ?w'\<rparr>)) =
          [Exhausted err] \<and>
        st_world (run e ctx n key (tl sched) \<lparr>st_gs = [?g'], st_wg = k, st_limiter = l, st_world = ?w'\<rparr>) =
          w2\<lparr>console := console w2 @ [''Failed to retrieve comments: '' @ msg err]\<rparr>"
      by simp
    have eq: "run e ctx n key sched ?s =
        run e ctx n key (tl sched) \<lparr>st_gs = [?g'], st_wg = k, st_limiter = l, st_world = ?w'\<rparr>"
      using run_single_step [OF nf, of e ctx n key sched k l w] st by simp
    have rt: "Retry (operation e (gurl g) n key) (d # ds) w =
        Retry (operation e (gurl g) n key) ds ?w'"
      using o Some by simp
    from IH show ?thesis by (simp only: eq rt)
  qed
qed

lemma getComments_single:
  "getComments e ctx sched [url] n key w =
     Some ([fst (task e ctx n key url (limiter0, w))], snd (snd (task e ctx n key url (limiter0, w))))"
proof -
  let ?g = "spawn w url"
  let ?s = "\<lparr>st_gs = [?g], st_wg = 1, st_limiter = limiter0, st_world = w\<rparr>"
  have s: "start w [url] = ?s" by (simp add: start_def)
  have nf: "\<not> finished ?g" and ph: "gphase ?g = Pending" and cl: "gclock ?g = now w"
    and u: "gurl ?g = url"
    by (simp_all add: spawn_def finished_def)
  obtain r l' t where wt: "Wait limiter0 ctx (now w) = (r, l', t)"
    by (cases "Wait limiter0 ctx (now w)")
  have "outcomes (st_gs (run e ctx n key sched ?s)) = [fst (task e ctx n key url (limiter0, w))] \<and>
        st_world (run e ctx n key sched ?s) = snd (snd (task e ctx n key url (limiter0, w)))"
  proof (cases r)
    case (Inl err)
    with wt ph cl have "step_at e ctx n key 0 ?s =
        \<lparr>st_gs = [?g\<lparr>gclock := t, gphase := Finished (Cancelled err)\<rparr>], st_wg = 0,
         st_limiter = l',
         st_world = w\<lparr>now := t, console := console w @ [''Rate limit error: '' @ msg err]\<rparr>\<rparr>"
      by (simp add: step_at_def gstep_Pending finished_def)
    with run_single_step [OF nf, of e ctx n key sched 1 limiter0 w] wt Inl show ?thesis
      by (simp add: run_single_done finished_def outcomes_def task_def)
  next
    case (Inr x)
    let ?w1 = "w\<lparr>now := t, trace := trace w @ [PermitAcquired]\<rparr>"
    let ?ds = "NewExponentialBackOff e ?w1"
    let ?g' = "?g\<lparr>gclock := t, gphase := InFlight ?ds\<rparr>"
    from Inr wt ph cl have st: "step_at e ctx n key 0 ?s =
        \<lparr>st_gs = [?g'], st_wg = 1, st_limiter = l', st_world = ?w1\<rparr>"
      by (simp add: step_at_def gstep_Pending finished_def)
    obtain r2 w2 where rt: "Retry (operation e url n key) ?ds ?w1 = (r2, w2)"
      by (cases "Retry (operation e url n key) ?ds ?w1")
    have "gclock ?g' = now ?w1" "gphase ?g' = InFlight ?ds" by simp_all
    from run_single_InFlight [OF this, where e = e and n = n and key = key and ctx = ctx
        and sched = "tl sched" and k = 1 and l = l'] rt u
    have "outcomes (st_gs (run e ctx n key (tl sched)
              \<lparr>st_gs = [?g'], st_wg = 1, st_limiter = l', st_world = ?w1\<rparr>)) =
            [case r2 of None \<Rightarrow> Succeeded | Some err \<Rightarrow> Exhausted err] \<and>
          st_world (run e ctx n key (tl sched)
              \<lparr>st_gs = [?g'], st_wg = 1, st_limiter = l', st_world = ?w1\<rparr>) =
            (case r2 of None \<Rightarrow> w2
             | Some err \<Rightarrow> w2\<lparr>console := console w2 @ [''Failed to retrieve comments: '' @ msg err]\<rparr>)"
      by (cases r2) simp_all
    moreover have "run e ctx n key sched ?s =
        run e ctx n key (tl sched) \<lparr>st_gs = [?g'], st_wg = 1, st_limiter = l', st_world = ?w1\<rparr>"
      using run_single_step [OF nf, of e ctx n key sched 1 limiter0 w] st by simp
    ultimately show ?thesis
      using task_unfold [OF wt [unfolded Inr] rt] by (cases r2) simp_all
  qed
  with getComments_returns [of e ctx sched "[url]" n key w] s show ?thesis by simp
qed

subsection \<open>C3: the scenario of the video abc123\<close>

text \<open>
  C3: for a locator whose identifier is \<^verbatim>\<open>abc123\<close>, a result bound of 2 and a remote API
  that returns the comments of Alice (\<^verbatim>\<open>hi\<close>) and Bob (\<^verbatim>\<open>nice video\<close>), the file
  written is \<^verbatim>\<open>comments_abc123.txt\<close>, opened for appending and created when missing:
  under every schedule the run returns, the task succeeds, and after the run the file holds
  what it held before, followed by exactly the two lines
  \<^verbatim>\<open>Comment from Alice: hi\<close> and \<^verbatim>\<open>Comment from Bob: nice video\<close>; no other file
  changes. The file can be opened and written, as the scenario takes for granted.
\<close>

theorem C3_scenario:
  assumes p: "url_Parse e loc = Inr u" and v: "Values_Get (Query u) ''v'' = ''abc123''"
    and new: "youtube_New e key = None"
    and opn: "\<And>v. OpenFile_err e v ''comments_abc123.txt'' = None"
    and ok: "\<And>v q. Write_err e v ''comments_abc123.txt'' q = None"
    and rem: "\<And>v. CommentThreads_List_Do e v key ''abc123'' 2 =
                Inr [\<lparr>AuthorDisplayName = ''Alice'', TextDisplay = ''hi''\<rparr>,
                     \<lparr>AuthorDisplayName = ''Bob'', TextDisplay = ''nice video''\<rparr>]"
  shows "filename_of ''abc123'' = ''comments_abc123.txt'' \<and>
         (\<exists>w'. getComments e Background sched [loc] 2 key w = Some ([Succeeded], w') \<and>
            files w' =
              (files w)(''comments_abc123.txt'' \<mapsto>
                 content w ''comments_abc123.txt'' @
                 ''Comment from Alice: hi'' @ [CHR 0x0A] @
                 ''Comment from Bob: nice video'' @ [CHR 0x0A]))"
proof -
  have f: "filename_of ''abc123'' = ''comments_abc123.txt''"
    by (simp add: filename_of_def defaultCommentsFileName_def)
  from p v have vid: "getVideoId e loc = Inr ''abc123''"
    by (simp add: getVideoId_def)
  obtain r l' w' where t: "task e Background 2 key loc (limiter0, w) = (r, l', w')"
    by (cases "task e Background 2 key loc (limiter0, w)")
  have opn': "\<And>v. OpenFile_err e v (filename_of ''abc123'') = None"
    and ok': "\<And>v q. Write_err e v (filename_of ''abc123'') q = None"
    using opn ok f by simp_all
  from task_success [where l = limiter0 and w = w, OF new vid opn' ok' rem] t f
  have r: "r = Succeeded"
    and fs: "files w' = (files w)(''comments_abc123.txt'' \<mapsto>
              content w ''comments_abc123.txt'' @
              ''Comment from Alice: hi'' @ [CHR 0x0A] @
              ''Comment from Bob: nice video'' @ [CHR 0x0A])"
    by (simp_all add: comment_line_def)
  from t r have g: "getComments e Background sched [loc] 2 key w = Some ([Succeeded], w')"
    by (simp add: getComments_single)
  from g fs have "\<exists>w'. getComments e Background sched [loc] 2 key w = Some ([Succeeded], w') \<and>
      files w' = (files w)(''comments_abc123.txt'' \<mapsto>
              content w ''comments_abc123.txt'' @
              ''Comment from Alice: hi'' @ [CHR 0x0A] @
              ''Comment from Bob: nice video'' @ [CHR 0x0A])"
    by (intro exI conjI)
  with f show ?thesis by (intro conjI)
qed

text \<open>
  C3 in the concrete environment, from a world in which the file already holds one line:
  the two lines come after it.
\<close>

theorem C3_witness:
  "url_Parse demo_env ''https://www.youtube.com/watch?v=abc123'' = Inr (URL [''v'' \<mapsto> [''abc123'']]) \<and>
   Values_Get (Query (URL [''v'' \<mapsto> [''abc123'']])) ''v'' = ''abc123'' \<and>
   youtube_New demo_env ''KEY'' = None \<and>
   (\<forall>v. OpenFile_err demo_env v ''comments_abc123.txt'' = None) \<and>
   (\<forall>v q. Write_err demo_env v ''comments_abc123.txt'' q = None) \<and>
   (\<forall>v. CommentThreads_List_Do demo_env v ''KEY'' ''abc123'' 2 =
                Inr [\<lparr>AuthorDisplayName = ''Alice'', TextDisplay = ''hi''\<rparr>,
                     \<lparr>AuthorDisplayName = ''Bob'', TextDisplay = ''nice video''\<rparr>]) \<and>
   (\<exists>w'. getComments demo_env Background [0, 0] [''https://www.youtube.com/watch?v=abc123''] 2 ''KEY'' w_old =
            Some ([Succeeded], w') \<and>
          files w' ''comments_abc123.txt'' =
            Some (''Comment from Zed: first'' @ [CHR 0x0A] @
                  ''Comment from Alice: hi'' @ [CHR 0x0A] @
                  ''Comment from Bob: nice video'' @ [CHR 0x0A]))"
proof -
  have p: "url_Parse demo_env ''https://www.youtube.com/watch?v=abc123'' = Inr (URL [''v'' \<mapsto> [''abc123'']])"
    by (simp add: demo_env_def demo_Parse_def demo_ids_def)
  have v: "Values_Get (Query (URL [''v'' \<mapsto> [''abc123'']])) ''v'' = ''abc123''"
    by (simp add: Values_Get_def)
  have new: "youtube_New demo_env ''KEY'' = None"
    and opn: "\<And>v. OpenFile_err demo_env v ''comments_abc123.txt'' = None"
    and ok: "\<And>v q. Write_err demo_env v ''comments_abc123.txt'' q = None"
    and rem: "\<And>v. CommentThreads_List_Do demo_env v ''KEY'' ''abc123'' 2 =
                Inr [\<lparr>AuthorDisplayName = ''Alice'', TextDisplay = ''hi''\<rparr>,
                     \<lparr>AuthorDisplayName = ''Bob'', TextDisplay = ''nice video''\<rparr>]"
    by (simp_all add: demo_env_def demo_Do_def alice_bob_def)
  have c: "content w_old ''comments_abc123.txt'' = ''Comment from Zed: first'' @ [CHR 0x0A]"
    by (simp add: content_def w_old_def)
  from C3_scenario [OF p v new opn ok rem, of "[0, 0]" w_old]
  obtain w' where g: "getComments demo_env Background [0, 0] [''https://www.youtube.com/watch?v=abc123''] 2 ''KEY'' w_old =
            Some ([Succeeded], w')"
    and fs: "files w' = (files w_old)(''comments_abc123.txt'' \<mapsto>
              content w_old ''comments_abc123.txt'' @
              ''Comment from Alice: hi'' @ [CHR 0x0A] @
              ''Comment from Bob: nice video'' @ [CHR 0x0A])"
    by blast
  have "files w' ''comments_abc123.txt'' =
            Some (''Comment from Zed: first'' @ [CHR 0x0A] @
                  ''Comment from Alice: hi'' @ [CHR 0x0A] @
                  ''Comment from Bob: nice video'' @ [CHR 0x0A])"
    by (subst fs, subst c) simp
  with g have "\<exists>w'. getComments demo_env Background [0, 0] [''https://www.youtube.com/watch?v=abc123''] 2 ''KEY'' w_old =
            Some ([Succeeded], w') \<and>
          files w' ''comments_abc123.txt'' =
            Some (''Comment from Zed: first'' @ [CHR 0x0A] @
                  ''Comment from Alice: hi'' @ [CHR 0x0A] @
                  ''Comment from Bob: nice video'' @ [CHR 0x0A])"
    by (intro exI conjI)
  with p v new opn ok rem show ?thesis by (intro conjI allI)
qed

subsection \<open>C4: a failing task and its siblings\<close>



subsection \<open>C5: the errors of an attempt\<close>

lemma Write_direct_fail:
  assumes "buf b = []" "werr b = None" "defaultBufSize < length p"
    and "Write_err e w (wr b) p = Some m"
  shows "Write e b p w = (b\<lparr>werr := Some m\<rparr>, Some m, w)"
proof -
  from assms(1,3) have len: "Available b < length p" by (simp add: Available_def)
  from assms(4) have fw: "File_Write e (wr b) p w = (Some m, w)"
    by (simp add: File_Write_def)
  have "Write_loop e (b\<lparr>werr := Some m\<rparr>) p w = (b\<lparr>werr := Some m\<rparr>, p, w)"
    by (rule Write_loop_stop) simp
  with Write_loop_direct [OF len assms(2,1), of e w] fw
  have "Write_loop e b p w = (b\<lparr>werr := Some m\<rparr>, p, w)" by simp
  then show ?thesis by (simp add: Write_def)
qed

lemma operation_write_fail:
  assumes new: "youtube_New e key = None"
    and vid: "getVideoId e url = Inr vid"
    and opn: "OpenFile_err e w (filename_of vid) = None"
    and rem: "CommentThreads_List_Do e (snd (OpenFile e (filename_of vid) w)) key vid n = Inr (c # cs)"
    and long: "defaultBufSize < length (comment_line c)"
    and full: "\<And>v q. Write_err e v (filename_of vid) q = Some m"
  shows "operation e url n key w =
           (Some (Error IOError (errorWritingFileMsg @ '': '' @ m)),
            w\<lparr>files := (files w)(filename_of vid \<mapsto> content w (filename_of vid)),
              trace := trace w @ [RemoteCall key vid n]\<rparr>)"
proof -
  let ?f = "filename_of vid"
  let ?w1 = "w\<lparr>files := (files w)(?f \<mapsto> content w ?f)\<rparr>"
  let ?w2 = "?w1\<lparr>trace := trace w @ [RemoteCall key vid n]\<rparr>"
  note o = OpenFile_ok [OF opn]
  have "Write e (NewWriter ?f) (comment_line c) ?w2 =
          ((NewWriter ?f)\<lparr>werr := Some m\<rparr>, Some m, ?w2)"
    by (rule Write_direct_fail) (simp_all add: NewWriter_def long full)
  then have wi: "write_items e (NewWriter ?f) (c # cs) ?w2 =
      ((NewWriter ?f)\<lparr>werr := Some m\<rparr>,
       Some (Error IOError (errorWritingFileMsg @ '': '' @ m)), ?w2)"
    by (simp add: Fprintf_def)
  have fl: "Flush e ((NewWriter ?f)\<lparr>werr := Some m\<rparr>) ?w2 = ((NewWriter ?f)\<lparr>werr := Some m\<rparr>, ?w2)"
    by (simp add: Flush_def)
  from new vid o rem wi fl show ?thesis
    by (simp add: operation_def deferred_def Let_def)
qed

lemma Retry_same_error:
  assumes "\<And>v. fst (oper v) = Some err"
  shows "fst (Retry oper ds w) = Some err"
proof (induction ds arbitrary: w)
  case Nil
  from assms show ?case by simp
next
  case (Cons d ds)
  obtain r w' where o: "oper w = (r, w')" by (cases "oper w")
  with assms [of w] have "r = Some err" by simp
  with o Cons.IH [of "w'\<lparr>now := now w' + d\<rparr>"] show ?case by simp
qed

text \<open>
  C5 says that every error that arises inside an attempt, an error of the output file
  included, reaches the retry wrapper and is retried. The closure leaves the flush of its
  writer to \<^verbatim>\<open>defer writer.Flush()\<close> (line 78) and drops the error that the flush
  returns. On a full disk, where every write to the file fails, the two short comments of
  the video \<^verbatim>\<open>abc123\<close> stay in the buffer until the deferred flush, whose write fails:
  the attempt returns no error, nothing is retried, the task succeeds, the console stays
  empty and the file is left empty. The sibling path (lines 88 to 91) does return the error
  of a write: with one comment longer than the buffer the write happens inside
  \<^verbatim>\<open>Fprintf\<close>, and the same task on the same disk ends as exhausted with the I/O error.
\<close>

theorem C5_flush_error_dropped:
  "map_option (\<lambda>(rs, w'). (rs, console w', files w' ''comments_abc123.txt''))
     (getComments full_env Background [] [''https://www.youtube.com/watch?v=abc123''] 2 ''KEY'' w0) =
     Some ([Succeeded], [], Some []) \<and>
   map_option fst
     (getComments full_env_long Background [] [''https://www.youtube.com/watch?v=abc123''] 2 ''KEY'' w0) =
     Some [Exhausted (Error IOError ''Error writing to file: %v: no space left on device'')]"
proof
  show "map_option (\<lambda>(rs, w'). (rs, console w', files w' ''comments_abc123.txt''))
     (getComments full_env Background [] [''https://www.youtube.com/watch?v=abc123''] 2 ''KEY'' w0) =
     Some ([Succeeded], [], Some [])"
    by code_simp
next
  let ?e = "full_env_long" and ?url = "''https://www.youtube.com/watch?v=abc123''"
  let ?err = "Error IOError ''Error writing to file: %v: no space left on device''"
  have new: "youtube_New ?e ''KEY'' = None"
    and opn: "\<And>v f. OpenFile_err ?e v f = None"
    and rem: "\<And>v. CommentThreads_List_Do ?e v ''KEY'' ''abc123'' 2 = Inr long_comment"
    and full: "\<And>v q. Write_err ?e v (filename_of ''abc123'') q = Some ''no space left on device''"
    by (simp_all add: full_env_long_def full_env_def demo_env_def)
  have vid: "getVideoId ?e ?url = Inr ''abc123''"
    by (simp add: getVideoId_def full_env_long_def full_env_def demo_env_def demo_Parse_def
          demo_ids_def Values_Get_def)
  have long: "defaultBufSize < length (comment_line (hd long_comment))"
    by (simp add: long_comment_def comment_line_def defaultBufSize_def)
  have lc: "long_comment = hd long_comment # tl long_comment"
    by (simp add: long_comment_def)
  have "fst (operation ?e ?url 2 ''KEY'' v) = Some ?err" for v
    using operation_write_fail [OF new vid opn _ long full, of v 2 "tl long_comment"] rem lc
    by (simp add: errorWritingFileMsg_def)
  then have rt: "fst (Retry (operation ?e ?url 2 ''KEY'') ds v) = Some ?err" for ds v
    by (rule Retry_same_error)
  obtain l' t where wt: "Wait limiter0 Background (now w0) = (Inr (), l', t)"
    using Wait_Background [of limiter0 "now w0"] by (cases "Wait limiter0 Background (now w0)") auto
  let ?w1 = "w0\<lparr>now := t, trace := trace w0 @ [PermitAcquired]\<rparr>"
  obtain r2 w2 where r2: "Retry (operation ?e ?url 2 ''KEY'') (NewExponentialBackOff ?e ?w1) ?w1 = (r2, w2)"
    by (cases "Retry (operation ?e ?url 2 ''KEY'') (NewExponentialBackOff ?e ?w1) ?w1")
  with rt [of "NewExponentialBackOff ?e ?w1" ?w1] have "r2 = Some ?err" by simp
  with task_unfold [OF wt r2]
  have "fst (task ?e Background 2 ''KEY'' ?url (limiter0, w0)) = Exhausted ?err"
    by simp
  then show "map_option fst (getComments ?e Background [] [?url] 2 ''KEY'' w0) = Some [Exhausted ?err]"
    by (simp add: getComments_single)
qed

subsection \<open>C6: the retry wrapper\<close>

lemma Retry_succeeds_after:
  assumes inc: "\<And>v. c (snd (oper v)) = Suc (c v)"
    and slp: "\<And>v d. c (v\<lparr>now := now v + d\<rparr>) = c v"
    and fails: "\<And>v. c v < k \<Longrightarrow> fst (oper v) \<noteq> None"
    and succ: "\<And>v. c v = k \<Longrightarrow> fst (oper v) = None"
  shows "c w \<le> k \<Longrightarrow> k - c w \<le> length ds \<Longrightarrow>
         fst (Retry oper ds w) = None \<and> c (snd (Retry oper ds w)) = Suc k"
proof (induction ds arbitrary: w)
  case Nil
  then have "c w = k" by simp
  with succ [of w] inc [of w] show ?case by simp
next
  case (Cons d ds)
  obtain r w' where o: "oper w = (r, w')" by (cases "oper w")
  show ?case
  proof (cases "c w = k")
    case True
    with succ [of w] inc [of w] o show ?thesis by simp
  next
    case False
    with Cons.prems have lt: "c w < k" by simp
    with fails [of w] o obtain err where r: "r = Some err" by auto
    let ?w = "w'\<lparr>now := now w' + d\<rparr>"
    from inc [of w] o slp [of w' d] have cw: "c ?w = Suc (c w)" by simp
    with lt Cons.prems have "c ?w \<le> k" "k - c ?w \<le> length ds" by simp_all
    from Cons.IH [OF this] o r show ?thesis by simp
  qed
qed

lemma Retry_exhausts:
  assumes inc: "\<And>v. c (snd (oper v)) = Suc (c v)"
    and slp: "\<And>v d. c (v\<lparr>now := now v + d\<rparr>) = c v"
    and fails: "\<And>v. fst (oper v) \<noteq> None"
  shows "\<exists>v. c v = c w + length ds \<and> Retry oper ds w = oper v"
proof (induction ds arbitrary: w)
  case Nil
  have "c w = c w + length ([] :: nat list) \<and> Retry oper [] w = oper w" by simp
  then show ?case by (rule exI)
next
  case (Cons d ds)
  obtain r w' where o: "oper w = (r, w')" by (cases "oper w")
  with fails [of w] obtain err where r: "r = Some err" by auto
  let ?w = "w'\<lparr>now := now w' + d\<rparr>"
  from inc [of w] o slp [of w' d] have cw: "c ?w = Suc (c w)" by simp
  from Cons.IH [of ?w] obtain v where "c v = c ?w + length ds" "Retry oper ds ?w = oper v"
    by blast
  with cw o r have "c v = c w + length (d # ds) \<and> Retry oper (d # ds) w = oper v" by simp
  then show ?case by (rule exI)
qed

text \<open>
  C6: let \<open>c\<close> count the invocations of the operation (each invocation adds one, sleeping
  adds none). An operation that fails on its first \<open>k\<close> invocations and succeeds on the
  next one, with \<open>k\<close> at most the number of delays of the backoff policy, makes the wrapper
  return success after exactly \<open>k + 1\<close> invocations. For an operation that always fails, the
  wrapper returns what the last invocation returned, the one made after all delays are
  spent: its error and its final state.
\<close>

theorem C6_retry_wrapper:
  assumes inc: "\<And>v. c (snd (oper v)) = Suc (c v)"
    and slp: "\<And>v d. c (v\<lparr>now := now v + d\<rparr>) = c v"
  shows "((\<forall>v. c v < k \<longrightarrow> fst (oper v) \<noteq> None) \<and> (\<forall>v. c v = k \<longrightarrow> fst (oper v) = None) \<and>
          c w = 0 \<and> k \<le> length ds \<longrightarrow>
            fst (Retry oper ds w) = None \<and> c (snd (Retry oper ds w)) = Suc k) \<and>
         ((\<forall>v. fst (oper v) \<noteq> None) \<longrightarrow>
            (\<exists>v. c v = c w + length ds \<and> Retry oper ds w = oper v))"
proof (intro conjI impI)
  assume a: "(\<forall>v. c v < k \<longrightarrow> fst (oper v) \<noteq> None) \<and> (\<forall>v. c v = k \<longrightarrow> fst (oper v) = None) \<and>
          c w = 0 \<and> k \<le> length ds"
  then have "c w \<le> k" "k - c w \<le> length ds" by simp_all
  from Retry_succeeds_after [of c oper k w ds, OF inc slp _ _ this] a
  show "fst (Retry oper ds w) = None" and "c (snd (Retry oper ds w)) = Suc k"
    by simp_all
next
  assume "\<forall>v. fst (oper v) \<noteq> None"
  with Retry_exhausts [of c oper w ds, OF inc slp]
  show "\<exists>v. c v = c w + length ds \<and> Retry oper ds w = oper v" by simp
qed

text \<open>
  C6 in the concrete environment, the invocations counted by the remote calls: the video
  \<^verbatim>\<open>flaky01\<close> fails once and then succeeds; the video \<^verbatim>\<open>gone404\<close> always fails.
\<close>

theorem C6_witness:
  "(\<forall>v. calls (snd (operation demo_env ''https://www.youtube.com/watch?v=flaky01'' 2 ''KEY'' v)) =
          Suc (calls v)) \<and>
   (\<forall>v d. calls (v\<lparr>now := now v + d\<rparr>) = calls v) \<and>
   (\<forall>v. (fst (operation demo_env ''https://www.youtube.com/watch?v=flaky01'' 2 ''KEY'' v) = None) =
          (1 \<le> calls v)) \<and>
   calls w0 = 0 \<and> 1 \<le> length [500, 750 :: nat] \<and>
   fst (Retry (operation demo_env ''https://www.youtube.com/watch?v=flaky01'' 2 ''KEY'') [500, 750] w0) = None \<and>
   calls (snd (Retry (operation demo_env ''https://www.youtube.com/watch?v=flaky01'' 2 ''KEY'') [500, 750] w0)) = 2 \<and>
   (\<forall>v. fst (operation demo_env ''https://www.youtube.com/watch?v=gone404'' 2 ''KEY'' v) \<noteq> None) \<and>
   (\<exists>v. calls v = 2 \<and>
        Retry (operation demo_env ''https://www.youtube.com/watch?v=gone404'' 2 ''KEY'') [500, 750] w0 =
          operation demo_env ''https://www.youtube.com/watch?v=gone404'' 2 ''KEY'' v)"
proof -
  let ?F = "operation demo_env ''https://www.youtube.com/watch?v=flaky01'' 2 ''KEY''"
  let ?G = "operation demo_env ''https://www.youtube.com/watch?v=gone404'' 2 ''KEY''"
  have new: "youtube_New demo_env ''KEY'' = None"
    and opn: "\<And>v f. OpenFile_err demo_env v f = None"
    and ok: "\<And>v f q. Write_err demo_env v f q = None"
    by (simp_all add: demo_env_def)
  have vf: "getVideoId demo_env ''https://www.youtube.com/watch?v=flaky01'' = Inr ''flaky01''"
    and vg: "getVideoId demo_env ''https://www.youtube.com/watch?v=gone404'' = Inr ''gone404''"
    by (simp_all add: getVideoId_def demo_env_def demo_Parse_def demo_ids_def Values_Get_def)
  have incF: "\<And>v. calls (snd (?F v)) = Suc (calls v)"
    by (simp add: calls_def operation_calls(1) [OF new vf opn])
  have incG: "\<And>v. calls (snd (?G v)) = Suc (calls v)"
    by (simp add: calls_def operation_calls(1) [OF new vg opn])
  have slp: "\<And>v d. calls (v\<lparr>now := now v + d\<rparr>) = calls v"
    by (simp add: calls_def)
  have failsF: "fst (?F v) \<noteq> None" if "calls v < 1" for v
  proof -
    from that have "CommentThreads_List_Do demo_env
        (snd (OpenFile demo_env (filename_of ''flaky01'') v)) ''KEY'' ''flaky01'' 2 =
        Inl ''googleapi: Error 503: backend error''"
      by (simp add: demo_env_def demo_Do_def OpenFile_def calls_def)
    from operation_remote_fail [OF new vf opn this] show ?thesis by simp
  qed
  have succF: "fst (?F v) = None" if "1 \<le> calls v" for v
  proof -
    from that have "CommentThreads_List_Do demo_env
        (snd (OpenFile demo_env (filename_of ''flaky01'') v)) ''KEY'' ''flaky01'' 2 =
        Inr [\<lparr>AuthorDisplayName = ''Carol'', TextDisplay = ''ok''\<rparr>]"
      by (simp add: demo_env_def demo_Do_def OpenFile_def calls_def)
    from operation_ok [OF new vf opn ok this] show ?thesis by simp
  qed
  have failsG: "fst (?G v) \<noteq> None" for v
  proof -
    have "CommentThreads_List_Do demo_env
        (snd (OpenFile demo_env (filename_of ''gone404'') v)) ''KEY'' ''gone404'' 2 =
        Inl ''googleapi: Error 503: backend error''"
      by (simp add: demo_env_def demo_Do_def)
    from operation_remote_fail [OF new vg opn this] show ?thesis by simp
  qed
  have c0: "calls w0 = 0" by (simp add: calls_def w0_def)
  from C6_retry_wrapper [of calls ?F 1 w0 "[500, 750]", OF incF slp] failsF succF c0
  have "fst (Retry ?F [500, 750] w0) = None" "calls (snd (Retry ?F [500, 750] w0)) = 2"
    by (simp_all del: Retry.simps)
  moreover from C6_retry_wrapper [of calls ?G 1 w0 "[500, 750]", OF incG slp] failsG c0
  have "\<exists>v. calls v = 2 \<and> Retry ?G [500, 750] w0 = ?G v"
    by (simp del: Retry.simps add: numeral_2_eq_2)
  moreover have "(fst (?F v) = None) = (1 \<le> calls v)" for v
    using failsF [of v] succF [of v] by (cases "1 \<le> calls v") simp_all
  ultimately show ?thesis using incF slp c0 failsG by (simp del: Retry.simps)
qed

subsection \<open>C7: what a failed task leaves behind\<close>

lemma Retry_remote_fail:
  assumes new: "youtube_New e key = None"
    and vid: "getVideoId e url = Inr vid"
    and opn: "\<And>v. OpenFile_err e v (filename_of vid) = None"
    and rem: "\<And>v. CommentThreads_List_Do e v key vid n = Inl m"
  shows "fst (Retry (operation e url n key) ds w) =
           Some (Error RemoteError (errorAPICallMsg @ '': '' @ m)) \<and>
         files (snd (Retry (operation e url n key) ds w)) =
           (files w)(filename_of vid \<mapsto> content w (filename_of vid))"
proof (induction ds arbitrary: w)
  case Nil
  from operation_remote_fail [OF new vid opn rem, of w] show ?case by simp
next
  case (Cons d ds)
  let ?f = "filename_of vid"
  let ?w1 = "w\<lparr>files := (files w)(?f \<mapsto> content w ?f),
                trace := trace w @ [RemoteCall key vid n],
                now := now w + d\<rparr>"
  have c: "(files ?w1)(?f \<mapsto> content ?w1 ?f) = (files w)(?f \<mapsto> content w ?f)"
    by (simp add: content_def)
  from operation_remote_fail [OF new vid opn rem, of w]
  have "Retry (operation e url n key) (d # ds) w = Retry (operation e url n key) ds ?w1"
    by simp
  with Cons.IH [of ?w1] show ?case by (simp only: c)
qed

text \<open>
  C7 says that a task that ends with a failure has not brought its output file into
  existence. The closure opens the file, creating it, before it calls the remote API
  (line 71 before line 81): from a world without files, the task for a video whose remote
  call always fails ends as exhausted, and the file \<^verbatim>\<open>comments_gone404.txt\<close> exists
  afterwards, empty.
\<close>

theorem C7_counterexample:
  "map_option (\<lambda>(rs, w'). (rs, files w' ''comments_gone404.txt''))
     (getComments demo_env Background [] [''https://www.youtube.com/watch?v=gone404''] 2 ''KEY'' w0) =
     Some ([Exhausted (Error RemoteError
        ''Error during API search call: %v: googleapi: Error 503: backend error'')], Some []) \<and>
   files w0 ''comments_gone404.txt'' = None"
  by code_simp

text \<open>
  C7, amended: a task whose locator does not parse leaves the file system as it was. A
  task whose remote calls all fail, its file being openable, ends as exhausted with the
  error of the remote call, and leaves every file with its former content, except that its
  own output file now exists: empty if it did not exist before.
\<close>

theorem C7_amended:
  "(url_Parse e url = Inl m \<longrightarrow> files (snd (snd (task e ctx n key url (l, w)))) = files w) \<and>
   (youtube_New e key = None \<and> getVideoId e url = Inr vid \<and>
    (\<forall>v. OpenFile_err e v (filename_of vid) = None) \<and>
    (\<forall>v. CommentThreads_List_Do e v key vid n = Inl m') \<longrightarrow>
      fst (task e Background n key url (l, w)) =
        Exhausted (Error RemoteError (errorAPICallMsg @ '': '' @ m')) \<and>
      files (snd (snd (task e Background n key url (l, w)))) =
        (files w)(filename_of vid \<mapsto> content w (filename_of vid)))"
proof (intro conjI impI)
  assume "url_Parse e url = Inl m"
  then have "getVideoId e url = Inl (''failed to parse URL: '' @ m)"
    by (simp add: getVideoId_def)
  then have "files (snd (snd (task e ctx n key url (l, w)))) g = files w g" for g
    by (intro task_foreign_file) simp
  then show "files (snd (snd (task e ctx n key url (l, w)))) = files w"
    by (rule ext)
next
  assume a: "youtube_New e key = None \<and> getVideoId e url = Inr vid \<and>
    (\<forall>v. OpenFile_err e v (filename_of vid) = None) \<and>
    (\<forall>v. CommentThreads_List_Do e v key vid n = Inl m')"
  obtain l' t where wt: "Wait l Background (now w) = (Inr (), l', t)"
    using Wait_Background [of l "now w"] by (cases "Wait l Background (now w)") auto
  let ?w1 = "w\<lparr>now := t, trace := trace w @ [PermitAcquired]\<rparr>"
  let ?ds = "NewExponentialBackOff e ?w1"
  obtain r2 w2 where rt: "Retry (operation e url n key) ?ds ?w1 = (r2, w2)"
    by (cases "Retry (operation e url n key) ?ds ?w1")
  from a Retry_remote_fail [of e key url vid n m' ?ds ?w1] rt
  have "r2 = Some (Error RemoteError (errorAPICallMsg @ '': '' @ m'))"
    and "files w2 = (files w)(filename_of vid \<mapsto> content w (filename_of vid))"
    by (simp_all add: content_def)
  with task_unfold [OF wt rt]
  show "fst (task e Background n key url (l, w)) =
        Exhausted (Error RemoteError (errorAPICallMsg @ '': '' @ m'))"
    and "files (snd (snd (task e Background n key url (l, w)))) =
        (files w)(filename_of vid \<mapsto> content w (filename_of vid))"
    by simp_all
qed

text \<open>
  The amended C7 in the concrete environment, from the world that holds one file: the
  malformed locator changes nothing, the failing video adds its empty file.
\<close>

theorem C7_witness:
  "url_Parse demo_env ''://bad'' =
     Inl (''parse '' @ [CHR 0x22] @ ''://bad'' @ [CHR 0x22] @ '': missing protocol scheme'') \<and>
   files (snd (snd (task demo_env Background 2 ''KEY'' ''://bad'' (limiter0, w_old)))) = files w_old \<and>
   youtube_New demo_env ''KEY'' = None \<and>
   getVideoId demo_env ''https://www.youtube.com/watch?v=gone404'' = Inr ''gone404'' \<and>
   (\<forall>v. OpenFile_err demo_env v (filename_of ''gone404'') = None) \<and>
   (\<forall>v. CommentThreads_List_Do demo_env v ''KEY'' ''gone404'' 2 =
          Inl ''googleapi: Error 503: backend error'') \<and>
   fst (task demo_env Background 2 ''KEY'' ''https://www.youtube.com/watch?v=gone404'' (limiter0, w_old)) =
     Exhausted (Error RemoteError (errorAPICallMsg @ '': googleapi: Error 503: backend error'')) \<and>
   files (snd (snd (task demo_env Background 2 ''KEY'' ''https://www.youtube.com/watch?v=gone404''
       (limiter0, w_old)))) = (files w_old)(''comments_gone404.txt'' \<mapsto> [])"
proof -
  have p: "url_Parse demo_env ''://bad'' =
     Inl (''parse '' @ [CHR 0x22] @ ''://bad'' @ [CHR 0x22] @ '': missing protocol scheme'')"
    by (simp add: demo_env_def demo_Parse_def demo_ids_def)
  have new: "youtube_New demo_env ''KEY'' = None"
    and opn: "\<forall>v. OpenFile_err demo_env v (filename_of ''gone404'') = None"
    and bad: "\<forall>v. CommentThreads_List_Do demo_env v ''KEY'' ''gone404'' 2 =
                Inl ''googleapi: Error 503: backend error''"
    by (simp_all add: demo_env_def demo_Do_def)
  have vg: "getVideoId demo_env ''https://www.youtube.com/watch?v=gone404'' = Inr ''gone404''"
    by (simp add: getVideoId_def demo_env_def demo_Parse_def demo_ids_def Values_Get_def)
  have c: "content w_old (filename_of ''gone404'') = []"
    and f: "filename_of ''gone404'' = ''comments_gone404.txt''"
    by (simp_all add: content_def w_old_def w0_def filename_of_def defaultCommentsFileName_def)
  from C7_amended [of demo_env "''://bad''" _ Background 2 "''KEY''" limiter0 w_old] p
  have "files (snd (snd (task demo_env Background 2 ''KEY'' ''://bad'' (limiter0, w_old)))) = files w_old"
    by simp
  moreover
  from C7_amended [of demo_env "''https://www.youtube.com/watch?v=gone404''" _ Background 2 "''KEY''"
      limiter0 w_old "''gone404''" "''googleapi: Error 503: backend error''"] new vg opn bad c f
  have "fst (task demo_env Background 2 ''KEY'' ''https://www.youtube.com/watch?v=gone404'' (limiter0, w_old)) =
     Exhausted (Error RemoteError (errorAPICallMsg @ '': googleapi: Error 503: backend error''))"
    and "files (snd (snd (task demo_env Background 2 ''KEY'' ''https://www.youtube.com/watch?v=gone404''
       (limiter0, w_old)))) = (files w_old)(''comments_gone404.txt'' \<mapsto> [])"
    by simp_all
  ultimately show ?thesis using p new vg opn bad by simp
qed

subsection \<open>C8: the token count of the limiter\<close>

lemma refill_ok: "limiter_ok l \<Longrightarrow> limiter_ok (refill l t)"
  by (simp add: limiter_ok_def refill_def Let_def)

lemma refill_static: "capacity (refill l t) = capacity l" "interval (refill l t) = interval l"
  by (simp_all add: refill_def Let_def)

lemma refill_next_token:
  assumes "limiter_ok l"
  shows "1 \<le> tokens (refill l (last_refill l + interval l))"
proof -
  from assms have "(last_refill l + interval l - last_refill l) div interval l = 1"
    by (simp add: limiter_ok_def)
  with assms show ?thesis
    by (simp add: refill_def limiter_ok_def Let_def)
qed

lemma Wait_ok: "limiter_ok l \<Longrightarrow> limiter_ok (fst (snd (Wait l ctx t)))"
proof -
  assume ok: "limiter_ok l"
  let ?l1 = "refill l t"
  let ?l2 = "refill ?l1 (last_refill ?l1 + interval ?l1)"
  from ok have ok1: "limiter_ok ?l1" by (rule refill_ok)
  then have ok2: "limiter_ok ?l2" by (rule refill_ok)
  from refill_next_token [OF ok1] have "1 \<le> tokens ?l2" .
  with ok2 have g2: "limiter_ok (?l2\<lparr>tokens := tokens ?l2 - 1\<rparr>)"
    by (simp add: limiter_ok_def)
  have g1: "limiter_ok (?l1\<lparr>tokens := tokens ?l1 - 1\<rparr>)" if "0 < tokens ?l1"
    using ok1 that by (simp add: limiter_ok_def)
  from ok1 g1 g2 show ?thesis
    by (simp add: Wait_def Let_def split: option.splits)
qed

lemma Wait_static:
  "capacity (fst (snd (Wait l ctx t))) = capacity l"
  "interval (fst (snd (Wait l ctx t))) = interval l"
  by (simp_all add: Wait_def Let_def refill_static split: option.splits)

lemma Waits_ok: "limiter_ok l \<Longrightarrow> limiter_ok (Waits l rs) \<and> capacity (Waits l rs) = capacity l"
proof (induction rs arbitrary: l)
  case Nil
  then show ?case by simp
next
  case (Cons r rs)
  obtain ctx t where r: "r = (ctx, t)" by (cases r)
  from Cons.IH [OF Wait_ok [OF Cons.prems, of ctx t]] r show ?case
    by (simp add: Wait_static)
qed

lemma refill_idem: "1 \<le> interval l \<Longrightarrow> refill (refill l t) t = refill l t"
proof -
  assume i: "1 \<le> interval l"
  let ?n = "(t - last_refill l) div interval l"
  have "(t - (last_refill l + ?n * interval l)) div interval l = 0"
  proof -
    have "t - (last_refill l + ?n * interval l) = (t - last_refill l) mod interval l"
      by (simp add: minus_div_mult_eq_mod [symmetric] algebra_simps)
    with i show ?thesis by simp
  qed
  then show ?thesis
    by (auto simp: refill_def Let_def)
qed

lemma refill_mono: "t \<le> t' \<Longrightarrow> tokens (refill l t) \<le> tokens (refill l t')"
proof -
  assume "t \<le> t'"
  then have "(t - last_refill l) div interval l \<le> (t' - last_refill l) div interval l"
    by (intro div_le_mono) simp
  then show ?thesis
    by (auto simp: refill_def Let_def)
qed

lemma Wait_decrements:
  assumes ok: "limiter_ok l" and g: "fst (Wait l ctx t) = Inr ()"
  shows "0 < tokens (refill (refill l t) (snd (snd (Wait l ctx t)))) \<and>
         tokens (fst (snd (Wait l ctx t))) =
           tokens (refill (refill l t) (snd (snd (Wait l ctx t)))) - 1"
proof -
  let ?l1 = "refill l t"
  let ?l2 = "refill ?l1 (last_refill ?l1 + interval ?l1)"
  from ok have ok1: "limiter_ok ?l1" by (rule refill_ok)
  from ok have i: "1 \<le> interval l" by (simp add: limiter_ok_def)
  from refill_next_token [OF ok1] have "0 < tokens ?l2" by simp
  with g refill_idem [OF i, of t] show ?thesis
    by (auto simp: Wait_def Let_def split: option.splits if_splits)
qed

lemma gstep_limiter_ok:
  assumes "limiter_ok l"
  shows "limiter_ok (fst (snd (gstep e ctx n key g (l, w))))"
proof (cases "gphase g")
  case Pending
  from Wait_ok [OF assms, of ctx "gclock g"] Pending show ?thesis
    by (auto simp: gstep_Pending split: prod.splits sum.splits)
next
  case (InFlight ds)
  with assms show ?thesis
    by (auto simp: gstep_InFlight split: prod.splits option.splits list.splits)
next
  case (Finished r)
  with assms show ?thesis by (simp add: gstep_Finished)
qed

lemma step_at_limiter_ok:
  "limiter_ok (st_limiter s) \<Longrightarrow> limiter_ok (st_limiter (step_at e ctx n key j s))"
  using gstep_limiter_ok [of "st_limiter s" e ctx n key "st_gs s ! j" "st_world s"]
  by (cases "gstep e ctx n key (st_gs s ! j) (st_limiter s, st_world s)") (simp add: step_at_def)

lemma run_limiter_ok:
  assumes "limiter_ok (st_limiter s)"
  shows "limiter_ok (st_limiter (run e ctx n key sched s))"
proof -
  have "limiter_ok (st_limiter (run e ctx n key sched s)) \<and>
        (\<forall>g \<in> set (st_gs (run e ctx n key sched s)). finished g)"
    by (rule run_rule [where I = "\<lambda>s. limiter_ok (st_limiter s)"])
       (simp_all add: assms step_at_limiter_ok)
  then show ?thesis by simp
qed

text \<open>
  C8: from a limiter with a token count from zero to its capacity, after every sequence of
  requests for a permit, with any contexts and at any times, the token count is again from
  zero to the capacity, and the capacity is what it was. So it is for the limiter that the
  goroutines of \<^verbatim>\<open>getComments\<close> share, after every step of every goroutine and at the
  end of the run, under every schedule. A request that succeeds finds at least one token
  once the limiter is refilled at the time at which the request returns, and leaves exactly
  one token less. The refill is monotone: at a later time it gives at least as many tokens.
  The limiter that \<^verbatim>\<open>getComments\<close> creates starts within these bounds.
\<close>

theorem C8_token_count:
  assumes ok: "limiter_ok l"
  shows "0 \<le> tokens (Waits l rs) \<and> tokens (Waits l rs) \<le> int (capacity l) \<and>
         capacity (Waits l rs) = capacity l \<and>
         (fst (Wait l ctx t) = Inr () \<longrightarrow>
            0 < tokens (refill (refill l t) (snd (snd (Wait l ctx t)))) \<and>
            tokens (fst (snd (Wait l ctx t))) =
              tokens (refill (refill l t) (snd (snd (Wait l ctx t)))) - 1) \<and>
         (t1 \<le> t2 \<longrightarrow> tokens (refill l t1) \<le> tokens (refill l t2)) \<and>
         limiter_ok limiter0 \<and>
         limiter_ok (st_limiter (step_at e c n key j (s\<lparr>st_limiter := l\<rparr>))) \<and>
         limiter_ok (st_limiter (run e c n key sched (s\<lparr>st_limiter := l\<rparr>))) \<and>
         limiter_ok (st_limiter (run e c n key sched (start w us)))"
proof -
  from Waits_ok [OF ok, of rs] have "limiter_ok (Waits l rs)" "capacity (Waits l rs) = capacity l"
    by simp_all
  then have a: "0 \<le> tokens (Waits l rs)" "tokens (Waits l rs) \<le> int (capacity l)"
    by (simp_all add: limiter_ok_def)
  have l0: "limiter_ok limiter0"
    by (simp add: limiter_ok_def limiter0_def NewLimiter_def Every_def Second_def)
  from ok have s1: "limiter_ok (st_limiter (step_at e c n key j (s\<lparr>st_limiter := l\<rparr>)))"
    by (intro step_at_limiter_ok) simp
  from ok have s2: "limiter_ok (st_limiter (run e c n key sched (s\<lparr>st_limiter := l\<rparr>)))"
    by (intro run_limiter_ok) simp
  from l0 have s3: "limiter_ok (st_limiter (run e c n key sched (start w us)))"
    by (intro run_limiter_ok) (simp add: start_def)
  from a l0 s1 s2 s3 show ?thesis
    using Waits_ok [OF ok, of rs] Wait_decrements [OF ok, of ctx t] refill_mono [of t1 t2 l]
    by blast
qed

text \<open>
  C8 on the limiter of \<^verbatim>\<open>getComments\<close> after its first permit is taken: four further
  requests, one of them with a deadline, and the run of three goroutines.
\<close>

theorem C8_witness:
  "limiter_ok (Waits limiter0 [(Background, 0)]) \<and>
   tokens (Waits limiter0 [(Background, 0)]) = 0 \<and>
   tokens (Waits (Waits limiter0 [(Background, 0)])
             [(Background, 0), (Background, 0), (Some 2500, 100), (Background, 7000)]) = 0 \<and>
   capacity (Waits (Waits limiter0 [(Background, 0)])
             [(Background, 0), (Background, 0), (Some 2500, 100), (Background, 7000)]) = 1 \<and>
   Wait (Waits limiter0 [(Background, 0)]) Background 0 =
     (Inr (), \<lparr>capacity = 1, interval = 1000, tokens = 0, last_refill = 1000\<rparr>, 1000) \<and>
   tokens (refill (refill (Waits limiter0 [(Background, 0)]) 0) 1000) = 1 \<and>
   tokens (refill (Waits limiter0 [(Background, 0)]) 500) = 0 \<and>
   tokens (refill (Waits limiter0 [(Background, 0)]) 2000) = 1 \<and>
   limiter_ok
     (st_limiter
        (run demo_env Background 2 ''KEY'' [1, 0, 1, 0]
           (start w0 [''https://www.youtube.com/watch?v=gone404'',
                      ''https://www.youtube.com/watch?v=abc123'',
                      ''https://www.youtube.com/watch?v=gone404'']))) \<and>
   tokens
     (st_limiter
        (run demo_env Background 2 ''KEY'' [1, 0, 1, 0]
           (start w0 [''https://www.youtube.com/watch?v=gone404'',
                      ''https://www.youtube.com/watch?v=abc123'',
                      ''https://www.youtube.com/watch?v=gone404'']))) = 0"
proof -
  let ?l = "Waits limiter0 [(Background, 0)]"
  let ?rs = "[(Background, 0), (Background, 0), (Some 2500, 100), (Background, 7000)]"
  let ?us = "[''https://www.youtube.com/watch?v=gone404'',
              ''https://www.youtube.com/watch?v=abc123'',
              ''https://www.youtube.com/watch?v=gone404'']"
  have ok: "limiter_ok ?l" by code_simp
  have c: "capacity ?l = 1" by code_simp
  note th = C8_token_count [OF ok, where rs = ?rs and ctx = Background and t = 0
      and ?t1.0 = 500 and ?t2.0 = 2000 and e = demo_env and c = Background and n = 2
      and key = "''KEY''" and j = 0 and s = "start w0 ?us" and sched = "[1, 0, 1, 0]"
      and w = w0 and us = ?us]
  from th have cap: "capacity (Waits ?l ?rs) = capacity ?l"
    and r: "limiter_ok (st_limiter (run demo_env Background 2 ''KEY'' [1, 0, 1, 0] (start w0 ?us)))"
    by blast+
  from cap c have cap': "capacity (Waits ?l ?rs) = 1" by simp
  have t0: "tokens ?l = 0" by code_simp
  have t1: "tokens (Waits ?l ?rs) = 0" by code_simp
  have wt: "Wait ?l Background 0 =
     (Inr (), \<lparr>capacity = 1, interval = 1000, tokens = 0, last_refill = 1000\<rparr>, 1000)"
    by code_simp
  have r1: "tokens (refill (refill ?l 0) 1000) = 1" by code_simp
  have r2: "tokens (refill ?l 500) = 0" by code_simp
  have r3: "tokens (refill ?l 2000) = 1" by code_simp
  have t2: "tokens (st_limiter (run demo_env Background 2 ''KEY'' [1, 0, 1, 0] (start w0 ?us))) = 0"
    by code_simp
  from ok t0 t1 cap' wt r1 r2 r3 r t2 show ?thesis by (intro conjI)
qed

subsection \<open>C9: the limiter of getComments\<close>

text \<open>
  C9: the limiter that \<^verbatim>\<open>getComments\<close> creates has capacity 1 and an interval of one
  second (1000 milliseconds), and starts with its one token. Its \<open>acquire\<close> fails only
  with the cancellation of the context it is given, so never under
  \<^verbatim>\<open>context.Background()\<close>; a task that ends at the limiter ends with that error.
\<close>

theorem C9_limiter:
  "capacity limiter0 = 1 \<and> interval limiter0 = Second \<and> Second = 1000 \<and> tokens limiter0 = 1 \<and>
   (fst (Wait lim ctx t) = Inl err \<longrightarrow> kind err = CancellationError \<and> ctx \<noteq> Background) \<and>
   (fst (task e ctx n key url (lim, w)) = Cancelled err \<longrightarrow>
      kind err = CancellationError \<and> ctx \<noteq> Background) \<and>
   fst (Wait lim Background t) = Inr ()"
proof -
  have lim0: "capacity limiter0 = 1 \<and> interval limiter0 = Second \<and> Second = 1000 \<and> tokens limiter0 = 1"
    by (simp add: limiter0_def NewLimiter_def Every_def Second_def)
  have wait: "kind x = CancellationError \<and> ctx \<noteq> Background"
    if "fst (Wait lim ctx s) = Inl x" for x s
    using that
    by (auto simp: Wait_def Let_def Canceled_def fired_def Background_def
          split: if_splits option.splits)
  have "kind err = CancellationError \<and> ctx \<noteq> Background"
    if c: "fst (task e ctx n key url (lim, w)) = Cancelled err"
  proof -
    obtain r l' s where wt: "Wait lim ctx (now w) = (r, l', s)"
      by (cases "Wait lim ctx (now w)")
    show ?thesis
    proof (cases r)
      case (Inl x)
      with wt c have "x = err" by (simp add: task_def)
      with wait [of "now w" x] wt Inl show ?thesis by simp
    next
      case (Inr u)
      let ?w1 = "w\<lparr>now := s, trace := trace w @ [PermitAcquired]\<rparr>"
      obtain r2 w2 where rt: "Retry (operation e url n key) (NewExponentialBackOff e ?w1) ?w1 = (r2, w2)"
        by (cases "Retry (operation e url n key) (NewExponentialBackOff e ?w1) ?w1")
      from task_unfold [OF wt [unfolded Inr] rt] c show ?thesis
        by (cases r2) simp_all
    qed
  qed
  with lim0 wait [of t err] Wait_Background [of lim t] show ?thesis by blast
qed

text \<open>
  C9 on a limiter without a token, under a context that fires after 500 milliseconds,
  before the next token arrives.
\<close>

theorem C9_witness:
  "fst (Wait (limiter0\<lparr>tokens := 0\<rparr>) (Some 500) 0) = Inl Canceled \<and>
   kind Canceled = CancellationError \<and> Some 500 \<noteq> Background \<and>
   fst (task demo_env (Some 500) 2 ''KEY'' ''https://www.youtube.com/watch?v=abc123''
          (limiter0\<lparr>tokens := 0\<rparr>, w0)) = Cancelled Canceled"
proof -
  have w: "fst (Wait (limiter0\<lparr>tokens := 0\<rparr>) (Some 500) 0) = Inl Canceled"
    by code_simp
  have t: "fst (task demo_env (Some 500) 2 ''KEY'' ''https://www.youtube.com/watch?v=abc123''
          (limiter0\<lparr>tokens := 0\<rparr>, w0)) = Cancelled Canceled"
    by code_simp
  from C9_limiter [of "limiter0\<lparr>tokens := 0\<rparr>" "Some 500" 0 Canceled demo_env 2 "''KEY''"
      "''https://www.youtube.com/watch?v=abc123''" w0] w t
  show ?thesis by simp
qed

end
